theory Spec2Isabelle
  imports Main
begin

section \<open>Calls and their observable results\<close>

text \<open>
  All three queue classes of \<^verbatim>\<open>LockFreeQueue.h\<close> offer \<^verbatim>\<open>bool push(const T& elem)\<close> and
  \<^verbatim>\<open>bool pop(T& elem)\<close>. A call of \<^verbatim>\<open>pop\<close> passes a variable by reference; \<open>Pop e\<close> is
  such a call with a variable that holds \<open>e\<close> before the call. What a caller can observe
  of a call is the returned flag and, for \<^verbatim>\<open>pop\<close>, the variable's value afterwards.

  \<^verbatim>\<open>std::size_t\<close> values are modelled as \<open>nat\<close>. The only arithmetic of the source is
  \<^verbatim>\<open>(pos + 1) % capacity\<close> with \<open>pos < capacity = size + 1\<close>, and the array declaration
  \<^verbatim>\<open>T data[size + 1]\<close> is well-formed only when \<open>size + 1\<close> does not wrap to zero, so
  \<open>pos + 1\<close> never exceeds the largest \<^verbatim>\<open>std::size_t\<close>. The template parameter \<^verbatim>\<open>size\<close>
  (written \<open>sz\<close>, as \<open>size\<close> is a constant of HOL) and the value \<open>d\<close> that
  default-initialisation leaves in a slot of type \<open>T\<close> are explicit arguments wherever
  the source constructs an array. An array is a list; an index outside it, which is
  undefined behaviour in C++, would leave the list as it is when written and give an
  unspecified value when read, and the bounds proved below show that the calls of one
  thread never use one. The memory orders of the atomic loads and stores do not matter
  to one call run to completion after another, which is what these definitions describe.
\<close>

datatype 'a call = Push 'a | Pop 'a

datatype 'a outcome = Pushed bool | Popped bool 'a

section \<open>\<^verbatim>\<open>LockFreeQueue<T, size>\<close>\<close>

record 'a LockFreeQueue =
  lfq_capacity :: nat
  lfq_reader :: nat
  lfq_writer :: nat
  lfq_data :: "'a list"

definition LockFreeQueue_init :: "nat \<Rightarrow> 'a \<Rightarrow> 'a LockFreeQueue" where
  "LockFreeQueue_init sz d =
     \<lparr>lfq_capacity = sz + 1, lfq_reader = 0, lfq_writer = 0,
      lfq_data = replicate (sz + 1) d\<rparr>"

definition LockFreeQueue_push :: "'a \<Rightarrow> 'a LockFreeQueue \<Rightarrow> bool \<times> 'a LockFreeQueue" where
  "LockFreeQueue_push elem q =
     (let wr_pos = lfq_writer q;
          next_pos = (wr_pos + 1) mod lfq_capacity q
      in if next_pos = lfq_reader q then (False, q)
         else (True, q\<lparr>lfq_data := (lfq_data q)[wr_pos := elem], lfq_writer := next_pos\<rparr>))"

text \<open>The result of \<open>pop\<close> is the flag, the caller's variable after the call, and the queue.\<close>

definition LockFreeQueue_pop :: "'a \<Rightarrow> 'a LockFreeQueue \<Rightarrow> bool \<times> 'a \<times> 'a LockFreeQueue" where
  "LockFreeQueue_pop elem q =
     (let rd_pos = lfq_reader q
      in if rd_pos = lfq_writer q then (False, elem, q)
         else (let elem' = lfq_data q ! rd_pos;
                   next_pos = (rd_pos + 1) mod lfq_capacity q
               in (True, elem', q\<lparr>lfq_reader := next_pos\<rparr>)))"

fun LockFreeQueue_run ::
  "'a call list \<Rightarrow> 'a LockFreeQueue \<Rightarrow> 'a outcome list \<times> 'a LockFreeQueue" where
  "LockFreeQueue_run [] q = ([], q)"
| "LockFreeQueue_run (Push v # cs) q =
     (case LockFreeQueue_push v q of (r, q') \<Rightarrow>
        (case LockFreeQueue_run cs q' of (rs, q'') \<Rightarrow> (Pushed r # rs, q'')))"
| "LockFreeQueue_run (Pop e # cs) q =
     (case LockFreeQueue_pop e q of (r, e', q') \<Rightarrow>
        (case LockFreeQueue_run cs q' of (rs, q'') \<Rightarrow> (Popped r e' # rs, q'')))"

section \<open>\<^verbatim>\<open>MutexedQueue<T, size>\<close>\<close>

text \<open>
  \<open>mq_lock\<close> is true while the mutex is held. The \<^verbatim>\<open>std::lock_guard\<close> at the head of both
  member functions acquires it and releases it at every return. A call that finds the
  mutex held waits for another thread to release it; with one call after another there
  is no such thread, so that call does not return, which is the result \<open>None\<close>.
\<close>

record 'a MutexedQueue =
  mq_data :: "'a list"
  mq_capacity :: nat
  mq_lock :: bool
  mq_reader :: nat
  mq_writer :: nat

definition MutexedQueue_init :: "nat \<Rightarrow> 'a \<Rightarrow> 'a MutexedQueue" where
  "MutexedQueue_init sz d =
     \<lparr>mq_data = replicate (sz + 1) d, mq_capacity = sz + 1, mq_lock = False,
      mq_reader = 0, mq_writer = 0\<rparr>"

definition MutexedQueue_push :: "'a \<Rightarrow> 'a MutexedQueue \<Rightarrow> (bool \<times> 'a MutexedQueue) option" where
  "MutexedQueue_push elem q =
     (if mq_lock q then None
      else (let lg = q\<lparr>mq_lock := True\<rparr>;
                next_pos = (mq_writer lg + 1) mod mq_capacity lg
            in if next_pos = mq_reader lg then Some (False, lg\<lparr>mq_lock := False\<rparr>)
               else Some (True, lg\<lparr>mq_data := (mq_data lg)[mq_writer lg := elem],
                                  mq_writer := next_pos, mq_lock := False\<rparr>)))"

definition MutexedQueue_pop ::
  "'a \<Rightarrow> 'a MutexedQueue \<Rightarrow> (bool \<times> 'a \<times> 'a MutexedQueue) option" where
  "MutexedQueue_pop elem q =
     (if mq_lock q then None
      else (let lg = q\<lparr>mq_lock := True\<rparr>
            in if mq_reader lg = mq_writer lg then Some (False, elem, lg\<lparr>mq_lock := False\<rparr>)
               else (let elem' = mq_data lg ! mq_reader lg;
                         next_pos = (mq_reader lg + 1) mod mq_capacity lg
                     in Some (True, elem', lg\<lparr>mq_reader := next_pos, mq_lock := False\<rparr>))))"

fun MutexedQueue_run ::
  "'a call list \<Rightarrow> 'a MutexedQueue \<Rightarrow> ('a outcome list \<times> 'a MutexedQueue) option" where
  "MutexedQueue_run [] q = Some ([], q)"
| "MutexedQueue_run (Push v # cs) q =
     (case MutexedQueue_push v q of
        None \<Rightarrow> None
      | Some (r, q') \<Rightarrow>
          (case MutexedQueue_run cs q' of
             None \<Rightarrow> None
           | Some (rs, q'') \<Rightarrow> Some (Pushed r # rs, q'')))"
| "MutexedQueue_run (Pop e # cs) q =
     (case MutexedQueue_pop e q of
        None \<Rightarrow> None
      | Some (r, e', q') \<Rightarrow>
          (case MutexedQueue_run cs q' of
             None \<Rightarrow> None
           | Some (rs, q'') \<Rightarrow> Some (Popped r e' # rs, q'')))"

section \<open>The free store\<close>

text \<open>
  \<^verbatim>\<open>UnboundedLockFreeQueue\<close> keeps its \<^verbatim>\<open>MemoryBlock\<close>s on the free store and shares them
  through the pointers \<^verbatim>\<open>head\<close>, \<^verbatim>\<open>tail\<close> and \<^verbatim>\<open>next_block\<close>, so the store is explicit:
  \<open>cells h ! a\<close> is the block at address \<open>a\<close>, or \<open>None\<close> once it has been deleted.
  \<open>avail h\<close> is the number of further blocks the store has room for, and \<open>history h\<close>
  records every allocation and deallocation in order.

  The source allocates with the plain expression \<^verbatim>\<open>new MemoryBlock()\<close>. Its allocation function
  \<^verbatim>\<open>operator new(std::size_t)\<close> reports failure by throwing \<^verbatim>\<open>std::bad_alloc\<close> and never
  returns a null pointer (only \<^verbatim>\<open>new (std::nothrow)\<close> does); the header declares no
  allocation function of its own. An exception that leaves a function is the result
  \<open>Inl bad_alloc\<close>. Reading or writing through a null pointer or a pointer to a deleted
  block, and deleting a block twice, have undefined behaviour in C++; the model stops
  there with \<open>Inl undefined_behaviour\<close>.
\<close>

datatype ptr = nullptr | Ptr nat

record 'a MemoryBlock =
  mb_reader :: nat
  mb_writer :: nat
  mb_next_block :: ptr
  mb_data :: "'a list"

definition MemoryBlock_init :: "nat \<Rightarrow> 'a \<Rightarrow> 'a MemoryBlock" where
  "MemoryBlock_init sz d =
     \<lparr>mb_reader = 0, mb_writer = 0, mb_next_block = nullptr, mb_data = replicate (sz + 1) d\<rparr>"

datatype event = Alloc nat | Free nat

record 'a heap =
  cells :: "'a MemoryBlock option list"
  avail :: nat
  history :: "event list"

datatype fault = bad_alloc | undefined_behaviour

definition new_MemoryBlock :: "nat \<Rightarrow> 'a \<Rightarrow> 'a heap \<Rightarrow> fault + (ptr \<times> 'a heap)" where
  "new_MemoryBlock sz d h =
     (if avail h = 0 then Inl bad_alloc
      else (let a = length (cells h)
            in Inr (Ptr a, h\<lparr>cells := cells h @ [Some (MemoryBlock_init sz d)],
                              avail := avail h - 1,
                              history := history h @ [Alloc a]\<rparr>)))"

definition deref :: "'a heap \<Rightarrow> ptr \<Rightarrow> fault + 'a MemoryBlock" where
  "deref h p =
     (case p of
        nullptr \<Rightarrow> Inl undefined_behaviour
      | Ptr a \<Rightarrow>
          (if a < length (cells h)
           then (case cells h ! a of None \<Rightarrow> Inl undefined_behaviour | Some b \<Rightarrow> Inr b)
           else Inl undefined_behaviour))"

definition assign :: "ptr \<Rightarrow> 'a MemoryBlock \<Rightarrow> 'a heap \<Rightarrow> fault + 'a heap" where
  "assign p b h =
     (case deref h p of
        Inl f \<Rightarrow> Inl f
      | Inr _ \<Rightarrow> (case p of nullptr \<Rightarrow> Inl undefined_behaviour
                  | Ptr a \<Rightarrow> Inr (h\<lparr>cells := (cells h)[a := Some b]\<rparr>)))"

definition delete_MemoryBlock :: "ptr \<Rightarrow> 'a heap \<Rightarrow> fault + 'a heap" where
  "delete_MemoryBlock p h =
     (case p of
        nullptr \<Rightarrow> Inr h
      | Ptr a \<Rightarrow>
          (case deref h p of
             Inl f \<Rightarrow> Inl f
           | Inr _ \<Rightarrow> Inr (h\<lparr>cells := (cells h)[a := None],
                              avail := avail h + 1,
                              history := history h @ [Free a]\<rparr>)))"

section \<open>\<^verbatim>\<open>UnboundedLockFreeQueue<T, size>\<close>\<close>

text \<open>
  The member functions take the queue object and the free store and return both.
  \<open>UnboundedLockFreeQueue_push_store\<close> is the end of \<^verbatim>\<open>push\<close> that the two paths through
  its \<^verbatim>\<open>if\<close> share (the write of the slot and the store of the writer index), and
  \<open>UnboundedLockFreeQueue_pop_load\<close> is the shared end of \<^verbatim>\<open>pop\<close>.
\<close>

record UnboundedLockFreeQueue =
  ulfq_capacity :: nat
  ulfq_head :: ptr
  ulfq_tail :: ptr
  ulfq_stop :: bool

definition UnboundedLockFreeQueue_init ::
  "nat \<Rightarrow> 'a \<Rightarrow> 'a heap \<Rightarrow> fault + (UnboundedLockFreeQueue \<times> 'a heap)" where
  "UnboundedLockFreeQueue_init sz d h =
     (case new_MemoryBlock sz d h of
        Inl f \<Rightarrow> Inl f
      | Inr (p, h') \<Rightarrow>
          Inr (\<lparr>ulfq_capacity = sz + 1, ulfq_head = p, ulfq_tail = p, ulfq_stop = False\<rparr>, h'))"

definition UnboundedLockFreeQueue_push_store ::
  "ptr \<Rightarrow> nat \<Rightarrow> nat \<Rightarrow> 'a \<Rightarrow> UnboundedLockFreeQueue \<Rightarrow> 'a heap \<Rightarrow>
   fault + (bool \<times> UnboundedLockFreeQueue \<times> 'a heap)" where
  "UnboundedLockFreeQueue_push_store current_tail wr_pos next_pos elem q h =
     (case deref h current_tail of
        Inl f \<Rightarrow> Inl f
      | Inr b \<Rightarrow>
          (case assign current_tail (b\<lparr>mb_data := (mb_data b)[wr_pos := elem]\<rparr>) h of
             Inl f \<Rightarrow> Inl f
           | Inr h1 \<Rightarrow>
               (case deref h1 current_tail of
                  Inl f \<Rightarrow> Inl f
                | Inr b1 \<Rightarrow>
                    (case assign current_tail (b1\<lparr>mb_writer := next_pos\<rparr>) h1 of
                       Inl f \<Rightarrow> Inl f
                     | Inr h2 \<Rightarrow> Inr (True, q, h2)))))"

definition UnboundedLockFreeQueue_push ::
  "nat \<Rightarrow> 'a \<Rightarrow> 'a \<Rightarrow> UnboundedLockFreeQueue \<Rightarrow> 'a heap \<Rightarrow>
   fault + (bool \<times> UnboundedLockFreeQueue \<times> 'a heap)" where
  "UnboundedLockFreeQueue_push sz d elem q h =
     (if \<not> ulfq_stop q then
        (let current_tail = ulfq_tail q
         in case deref h current_tail of
              Inl f \<Rightarrow> Inl f
            | Inr tb \<Rightarrow>
                (let wr_pos = mb_writer tb;
                     next_pos = (wr_pos + 1) mod ulfq_capacity q
                 in if next_pos = mb_reader tb then
                      (case new_MemoryBlock sz d h of
                         Inl f \<Rightarrow> Inl f
                       | Inr (next_block, h1) \<Rightarrow>
                           if next_block = nullptr then Inr (False, q, h1)
                           else
                             (case deref h1 current_tail of
                                Inl f \<Rightarrow> Inl f
                              | Inr tb1 \<Rightarrow>
                                  (case assign current_tail (tb1\<lparr>mb_next_block := next_block\<rparr>) h1 of
                                     Inl f \<Rightarrow> Inl f
                                   | Inr h2 \<Rightarrow>
                                       (let current_tail = next_block;
                                            q1 = q\<lparr>ulfq_tail := current_tail\<rparr>;
                                            wr_pos = 0;
                                            next_pos = (wr_pos + 1) mod ulfq_capacity q1
                                        in UnboundedLockFreeQueue_push_store current_tail wr_pos next_pos elem q1 h2))))
                    else UnboundedLockFreeQueue_push_store current_tail wr_pos next_pos elem q h))
      else Inr (False, q, h))"

text \<open>
  \<open>UnboundedLockFreeQueue_push_link\<close> is the part of \<^verbatim>\<open>push\<close> inside its \<^verbatim>\<open>if\<close>, for a successful
  allocation: the new block is allocated, the old tail block is linked to it and \<^verbatim>\<open>tail\<close>
  moves on, while the slot and the writer index of the new block are not yet written.
  It is the state of a producer thread that the consumer can find when the two threads
  run at the same time, and is used for that only.
\<close>

definition UnboundedLockFreeQueue_push_link ::
  "nat \<Rightarrow> 'a \<Rightarrow> UnboundedLockFreeQueue \<Rightarrow> 'a heap \<Rightarrow> fault + (UnboundedLockFreeQueue \<times> 'a heap)" where
  "UnboundedLockFreeQueue_push_link sz d q h =
     (let current_tail = ulfq_tail q
      in case new_MemoryBlock sz d h of
           Inl f \<Rightarrow> Inl f
         | Inr (next_block, h1) \<Rightarrow>
             (case deref h1 current_tail of
                Inl f \<Rightarrow> Inl f
              | Inr tb1 \<Rightarrow>
                  (case assign current_tail (tb1\<lparr>mb_next_block := next_block\<rparr>) h1 of
                     Inl f \<Rightarrow> Inl f
                   | Inr h2 \<Rightarrow> Inr (q\<lparr>ulfq_tail := next_block\<rparr>, h2))))"

definition UnboundedLockFreeQueue_pop_load ::
  "ptr \<Rightarrow> nat \<Rightarrow> UnboundedLockFreeQueue \<Rightarrow> 'a heap \<Rightarrow>
   fault + (bool \<times> 'a \<times> UnboundedLockFreeQueue \<times> 'a heap)" where
  "UnboundedLockFreeQueue_pop_load current_head rd_pos q h =
     (case deref h current_head of
        Inl f \<Rightarrow> Inl f
      | Inr b \<Rightarrow>
          (let elem' = mb_data b ! rd_pos
           in case assign current_head (b\<lparr>mb_reader := (rd_pos + 1) mod ulfq_capacity q\<rparr>) h of
                Inl f \<Rightarrow> Inl f
              | Inr h1 \<Rightarrow> Inr (True, elem', q, h1)))"

definition UnboundedLockFreeQueue_pop ::
  "'a \<Rightarrow> UnboundedLockFreeQueue \<Rightarrow> 'a heap \<Rightarrow>
   fault + (bool \<times> 'a \<times> UnboundedLockFreeQueue \<times> 'a heap)" where
  "UnboundedLockFreeQueue_pop elem q h =
     (if \<not> ulfq_stop q then
        (let current_head = ulfq_head q
         in case deref h current_head of
              Inl f \<Rightarrow> Inl f
            | Inr hb \<Rightarrow>
                (let rd_pos = mb_reader hb
                 in if rd_pos = mb_writer hb then
                      (let next_block = mb_next_block hb
                       in if next_block = nullptr then Inr (False, elem, q, h)
                          else
                            (let q1 = q\<lparr>ulfq_head := next_block\<rparr>
                             in case delete_MemoryBlock current_head h of
                                  Inl f \<Rightarrow> Inl f
                                | Inr h1 \<Rightarrow>
                                    (let current_head = next_block;
                                         rd_pos = 0
                                     in case deref h1 current_head of
                                          Inl f \<Rightarrow> Inl f
                                        | Inr nb \<Rightarrow>
                                            if rd_pos = mb_writer nb then Inr (False, elem, q1, h1)
                                            else UnboundedLockFreeQueue_pop_load current_head rd_pos q1 h1)))
                    else UnboundedLockFreeQueue_pop_load current_head rd_pos q h))
      else Inr (False, elem, q, h))"

fun count_live :: "'b option list \<Rightarrow> nat" where
  "count_live [] = 0"
| "count_live (None # xs) = count_live xs"
| "count_live (Some b # xs) = Suc (count_live xs)"

text \<open>
  The destructor sets \<^verbatim>\<open>stop\<close> and deletes the chain from \<^verbatim>\<open>head\<close> on. Every turn of its
  loop deletes a live block, so the loop ends even on a store whose links go in a circle:
  the number of live cells goes down.
\<close>

function UnboundedLockFreeQueue_destroy_loop ::
  "ptr \<Rightarrow> ptr \<Rightarrow> UnboundedLockFreeQueue \<Rightarrow> 'a heap \<Rightarrow> fault + (UnboundedLockFreeQueue \<times> 'a heap)" where
  "UnboundedLockFreeQueue_destroy_loop next_block current_head q h =
     (if next_block \<noteq> nullptr then
        (let q1 = q\<lparr>ulfq_head := next_block\<rparr>
         in case deref h current_head of
              Inl f \<Rightarrow> Inl f
            | Inr b \<Rightarrow>
                (case assign current_head (b\<lparr>mb_next_block := nullptr\<rparr>) h of
                   Inl f \<Rightarrow> Inl f
                 | Inr h1 \<Rightarrow>
                     (case delete_MemoryBlock current_head h1 of
                        Inl f \<Rightarrow> Inl f
                      | Inr h2 \<Rightarrow>
                          (let current_head = ulfq_head q1
                           in case deref h2 (ulfq_head q1) of
                                Inl f \<Rightarrow> Inl f
                              | Inr hb \<Rightarrow> UnboundedLockFreeQueue_destroy_loop (mb_next_block hb) current_head q1 h2))))
      else Inr (q, h))"
  by pat_completeness auto
termination
proof (relation "measure (\<lambda>(next_block, current_head, q, h). count_live (cells h))", goal_cases)
  case 1
  show ?case by simp
next
  case (2 next_block current_head q h q1 b h1 h2 current_head' hb)
  have fewer: "count_live (xs[a := None]) < count_live xs"
    if "a < length xs" "xs ! a = Some y" for xs :: "'a MemoryBlock option list" and a y
    using that
  proof (induction xs arbitrary: a)
    case Nil
    then show ?case by simp
  next
    case (Cons x xs)
    show ?case
    proof (cases a)
      case 0
      with Cons.prems show ?thesis by simp
    next
      case (Suc n)
      with Cons.prems Cons.IH [of n] show ?thesis by (cases x) simp_all
    qed
  qed
  from 2 show ?case
    by (auto simp: deref_def assign_def delete_MemoryBlock_def
          split: ptr.splits if_splits option.splits intro: fewer)
qed

declare UnboundedLockFreeQueue_destroy_loop.simps [simp del]

definition UnboundedLockFreeQueue_destroy ::
  "UnboundedLockFreeQueue \<Rightarrow> 'a heap \<Rightarrow> fault + (UnboundedLockFreeQueue \<times> 'a heap)" where
  "UnboundedLockFreeQueue_destroy q h =
     (let q1 = q\<lparr>ulfq_stop := True\<rparr>;
          current_head = ulfq_head q1
      in case deref h current_head of
           Inl f \<Rightarrow> Inl f
         | Inr b \<Rightarrow>
             (case UnboundedLockFreeQueue_destroy_loop (mb_next_block b) current_head q1 h of
                Inl f \<Rightarrow> Inl f
              | Inr (q2, h1) \<Rightarrow>
                  (case delete_MemoryBlock (ulfq_head q2) h1 of
                     Inl f \<Rightarrow> Inl f
                   | Inr h2 \<Rightarrow> Inr (q2, h2))))"

text \<open>A sequence of calls by one thread, stopped by the first exception or undefined step.\<close>

fun UnboundedLockFreeQueue_run ::
  "nat \<Rightarrow> 'a \<Rightarrow> 'a call list \<Rightarrow> UnboundedLockFreeQueue \<Rightarrow> 'a heap \<Rightarrow>
   fault + ('a outcome list \<times> UnboundedLockFreeQueue \<times> 'a heap)" where
  "UnboundedLockFreeQueue_run sz d [] q h = Inr ([], q, h)"
| "UnboundedLockFreeQueue_run sz d (Push v # cs) q h =
     (case UnboundedLockFreeQueue_push sz d v q h of
        Inl f \<Rightarrow> Inl f
      | Inr (r, q', h') \<Rightarrow>
          (case UnboundedLockFreeQueue_run sz d cs q' h' of
             Inl f \<Rightarrow> Inl f
           | Inr (rs, q'', h'') \<Rightarrow> Inr (Pushed r # rs, q'', h'')))"
| "UnboundedLockFreeQueue_run sz d (Pop e # cs) q h =
     (case UnboundedLockFreeQueue_pop e q h of
        Inl f \<Rightarrow> Inl f
      | Inr (r, e', q', h') \<Rightarrow>
          (case UnboundedLockFreeQueue_run sz d cs q' h' of
             Inl f \<Rightarrow> Inl f
           | Inr (rs, q'', h'') \<Rightarrow> Inr (Popped r e' # rs, q'', h'')))"


section \<open>Notions for stating the properties\<close>

text \<open>
  \<open>lfq_inv\<close> says that a \<^verbatim>\<open>LockFreeQueue<T, sz>\<close> has the shape the constructor gives it:
  the capacity field and the array length are \<open>sz + 1\<close> and both indices are inside the
  array. \<open>lfq_count\<close> is the number of slots from the reader index up to the writer index,
  going round the array, and \<open>lfq_contents\<close> lists what these slots hold, oldest first.
\<close>

definition lfq_inv :: "nat \<Rightarrow> 'a LockFreeQueue \<Rightarrow> bool" where
  "lfq_inv sz q \<longleftrightarrow>
     lfq_capacity q = sz + 1 \<and> lfq_reader q < sz + 1 \<and> lfq_writer q < sz + 1 \<and>
     length (lfq_data q) = sz + 1"

definition lfq_count :: "'a LockFreeQueue \<Rightarrow> nat" where
  "lfq_count q = (lfq_writer q + lfq_capacity q - lfq_reader q) mod lfq_capacity q"

definition lfq_contents :: "'a LockFreeQueue \<Rightarrow> 'a list" where
  "lfq_contents q =
     map (\<lambda>i. lfq_data q ! ((lfq_reader q + i) mod lfq_capacity q)) [0..<lfq_count q]"

text \<open>
  A \<^verbatim>\<open>push\<close> that returns true has stored an element and a \<^verbatim>\<open>pop\<close> that returns true has
  taken one. The elements that are live after a run of calls are those stored and not
  yet taken.
\<close>

definition stored :: "'a outcome \<Rightarrow> bool" where
  "stored r = (case r of Pushed ok \<Rightarrow> ok | Popped ok e \<Rightarrow> False)"

definition taken :: "'a outcome \<Rightarrow> bool" where
  "taken r = (case r of Pushed ok \<Rightarrow> False | Popped ok e \<Rightarrow> ok)"

definition live_elements :: "'a outcome list \<Rightarrow> int" where
  "live_elements rs = int (length (filter stored rs)) - int (length (filter taken rs))"

text \<open>
  Following the specification's words: the queue holds
  \<open>(writerIndex - readerIndex) mod (C + 1)\<close> live elements, a formula over the integers.
\<close>

definition spec_live_count :: "nat \<Rightarrow> 'a LockFreeQueue \<Rightarrow> int" where
  "spec_live_count C q = (int (lfq_writer q) - int (lfq_reader q)) mod (int C + 1)"

text \<open>The \<^verbatim>\<open>MutexedQueue\<close> with the indices and array of a \<^verbatim>\<open>LockFreeQueue\<close>, its mutex free.\<close>

definition mq_of :: "'a LockFreeQueue \<Rightarrow> 'a MutexedQueue" where
  "mq_of q =
     \<lparr>mq_data = lfq_data q, mq_capacity = lfq_capacity q, mq_lock = False,
      mq_reader = lfq_reader q, mq_writer = lfq_writer q\<rparr>"


text \<open>
  \<open>block_at h a\<close> is the live block at address \<open>a\<close> of the store, if there is one.
  \<open>ulfq_wf sz base q h\<close> describes the queue of block size \<open>sz\<close> whose blocks lie at the
  addresses from \<open>base\<close> on: \<^verbatim>\<open>head\<close> and \<^verbatim>\<open>tail\<close> point to live blocks of the queue, the tail
  block has no successor, every live block of the queue has its indices inside its
  array, and every link of such a block leads to a live block of the queue that is not
  the head and that no other block links to.
\<close>

definition block_at :: "'a heap \<Rightarrow> nat \<Rightarrow> 'a MemoryBlock option" where
  "block_at h a = (if a < length (cells h) then cells h ! a else None)"

definition ulfq_wf :: "nat \<Rightarrow> nat \<Rightarrow> UnboundedLockFreeQueue \<Rightarrow> 'a heap \<Rightarrow> bool" where
  "ulfq_wf sz base q h \<longleftrightarrow>
     ulfq_capacity q = sz + 1 \<and> base \<le> length (cells h) \<and>
     (\<exists>ha ta hb tb. ulfq_head q = Ptr ha \<and> ulfq_tail q = Ptr ta \<and> base \<le> ha \<and> base \<le> ta \<and>
        block_at h ha = Some hb \<and> block_at h ta = Some tb \<and> mb_next_block tb = nullptr) \<and>
     (\<forall>a b. base \<le> a \<longrightarrow> block_at h a = Some b \<longrightarrow>
        mb_reader b < sz + 1 \<and> mb_writer b < sz + 1 \<and> length (mb_data b) = sz + 1 \<and>
        (\<forall>n. mb_next_block b = Ptr n \<longrightarrow>
           base \<le> n \<and> block_at h n \<noteq> None \<and> ulfq_head q \<noteq> Ptr n \<and>
           (\<forall>a' b'. base \<le> a' \<longrightarrow> block_at h a' = Some b' \<longrightarrow> mb_next_block b' = Ptr n \<longrightarrow> a' = a)))"

text \<open>
  \<open>block_in_bounds sz c\<close>: the cell \<open>c\<close> is free, or its block has both indices below
  \<open>sz + 1\<close>, the length of its array. \<open>queue_block h base p\<close>: the pointer \<open>p\<close> leads to a
  live block at an address from \<open>base\<close> on.
\<close>

definition block_in_bounds :: "nat \<Rightarrow> 'a MemoryBlock option \<Rightarrow> bool" where
  "block_in_bounds sz c =
     (case c of
        None \<Rightarrow> True
      | Some b \<Rightarrow> mb_reader b < sz + 1 \<and> mb_writer b < sz + 1 \<and> length (mb_data b) = sz + 1)"

definition queue_block :: "'a heap \<Rightarrow> nat \<Rightarrow> ptr \<Rightarrow> bool" where
  "queue_block h base p =
     (case p of
        nullptr \<Rightarrow> False
      | Ptr a \<Rightarrow> base \<le> a \<and> a < length (cells h) \<and> cells h ! a \<noteq> None)"

section \<open>Arithmetic of ring indices\<close>

lemma ring_count:
  fixes r w c :: nat
  assumes "r < c" "w < c"
  shows "(w + c - r) mod c = (if r \<le> w then w - r else w + c - r)"
proof (cases "r \<le> w")
  case True
  then have "w + c - r = (w - r) + c" by simp
  then have "(w + c - r) mod c = (w - r) mod c" by (simp only: mod_add_self2)
  moreover have "w - r < c" using assms by simp
  ultimately show ?thesis using True by simp
next
  case False
  then have "w + c - r < c" using assms by simp
  then show ?thesis using False by simp
qed

lemma ring_succ:
  fixes w c :: nat
  assumes "w < c"
  shows "(w + 1) mod c = (if w + 1 = c then 0 else w + 1)"
  using assms by simp

lemma ring_end:
  fixes r w c :: nat
  assumes "r < c" "w < c"
  shows "(r + (w + c - r) mod c) mod c = w"
proof (cases "r \<le> w")
  case True
  then show ?thesis using assms by (simp add: ring_count)
next
  case False
  then have "r + (w + c - r) = w + c" using assms by simp
  then show ?thesis using False assms by (simp add: ring_count)
qed

lemma ring_before_end:
  fixes r w c :: nat
  assumes "r < c" "w < c" "i < (w + c - r) mod c"
  shows "w \<noteq> (r + i) mod c"
proof (cases "r + i < c")
  case True
  then show ?thesis using assms by (simp add: ring_count split: if_splits)
next
  case False
  then have "r + i = (r + i - c) + c" by simp
  then have "(r + i) mod c = (r + i - c) mod c" by (metis mod_add_self2)
  moreover have "r + i - c < c" using assms by (simp add: ring_count split: if_splits)
  ultimately have "(r + i) mod c = r + i - c" by simp
  then show ?thesis using False assms by (simp add: ring_count split: if_splits)
qed

lemma ring_count_less:
  fixes r w c :: nat
  assumes "r < c" "w < c"
  shows "(w + c - r) mod c \<le> c - 1"
proof -
  have "(w + c - r) mod c < c" using assms by simp
  then show ?thesis by simp
qed

lemma ring_full_iff:
  fixes r w c :: nat
  assumes "r < c" "w < c"
  shows "(w + 1) mod c = r \<longleftrightarrow> (w + c - r) mod c = c - 1"
proof -
  have cnt: "(w + c - r) mod c = (if r \<le> w then w - r else w + c - r)"
    using assms by (rule ring_count)
  have nxt: "(w + 1) mod c = (if w + 1 = c then 0 else w + 1)"
    using assms(2) by (rule ring_succ)
  show ?thesis unfolding cnt nxt using assms
    by (cases "w + 1 = c"; cases "r \<le> w"; simp; linarith)
qed

lemma ring_empty_iff:
  fixes r w c :: nat
  assumes "r < c" "w < c"
  shows "r = w \<longleftrightarrow> (w + c - r) mod c = 0"
proof -
  have cnt: "(w + c - r) mod c = (if r \<le> w then w - r else w + c - r)"
    using assms by (rule ring_count)
  show ?thesis unfolding cnt using assms
    by (cases "r \<le> w"; auto)
qed

lemma ring_count_push:
  fixes r w c :: nat
  assumes "r < c" "w < c" "(w + 1) mod c \<noteq> r"
  shows "((w + 1) mod c + c - r) mod c = Suc ((w + c - r) mod c)"
proof -
  have cnt: "(w + c - r) mod c = (if r \<le> w then w - r else w + c - r)"
    using assms(1,2) by (rule ring_count)
  show ?thesis
  proof (cases "w + 1 = c")
    case True
    then have nxt: "(w + 1) mod c = 0" by simp
    from assms(3) have "r \<noteq> 0" unfolding nxt by simp
    then have "(0 + c - r) mod c = c - r" using assms(1) by simp
    moreover have "r \<le> w" using True assms(1) by simp
    ultimately show ?thesis unfolding cnt nxt using True by simp
  next
    case False
    then have nxt: "(w + 1) mod c = w + 1" using assms(2) by simp
    from assms(3) have ne: "w + 1 \<noteq> r" unfolding nxt .
    have "w + 1 < c" using False assms(2) by simp
    with assms(1) have "(w + 1 + c - r) mod c = (if r \<le> w + 1 then w + 1 - r else w + 1 + c - r)"
      by (rule ring_count)
    then show ?thesis unfolding cnt nxt using ne assms(1) by (cases "r \<le> w"; simp)
  qed
qed

lemma ring_count_pop:
  fixes r w c :: nat
  assumes "r < c" "w < c" "r \<noteq> w"
  shows "(w + c - r) mod c = Suc ((w + c - (r + 1) mod c) mod c)"
proof -
  have cnt: "(w + c - r) mod c = (if r \<le> w then w - r else w + c - r)"
    using assms(1,2) by (rule ring_count)
  show ?thesis
  proof (cases "r + 1 = c")
    case True
    then have nxt: "(r + 1) mod c = 0" by simp
    have "\<not> r \<le> w" using True assms(2,3) by linarith
    moreover have "(w + c - 0) mod c = w" using assms(2) by simp
    ultimately show ?thesis unfolding cnt nxt using True by simp
  next
    case False
    then have nxt: "(r + 1) mod c = r + 1" using assms(1) by simp
    have "r + 1 < c" using False assms(1) by simp
    then have "(w + c - (r + 1)) mod c = (if r + 1 \<le> w then w - (r + 1) else w + c - (r + 1))"
      using assms(2) by (rule ring_count)
    then show ?thesis unfolding cnt nxt using assms by (cases "r \<le> w"; simp)
  qed
qed

section \<open>One call of \<^verbatim>\<open>LockFreeQueue\<close>\<close>

lemma lfq_init_inv: "lfq_inv sz (LockFreeQueue_init sz d)"
  by (simp add: lfq_inv_def LockFreeQueue_init_def)

lemma lfq_init_contents: "lfq_contents (LockFreeQueue_init sz d) = []"
  by (simp add: lfq_contents_def lfq_count_def LockFreeQueue_init_def)

lemma lfq_count_le: "lfq_inv sz q \<Longrightarrow> lfq_count q \<le> sz"
  using ring_count_less [of "lfq_reader q" "lfq_capacity q" "lfq_writer q"]
  by (simp add: lfq_inv_def lfq_count_def)

lemma lfq_length_contents: "length (lfq_contents q) = lfq_count q"
  by (simp add: lfq_contents_def)

lemma lfq_full_iff:
  "lfq_inv sz q \<Longrightarrow> (lfq_writer q + 1) mod lfq_capacity q = lfq_reader q \<longleftrightarrow> lfq_count q = sz"
  using ring_full_iff [of "lfq_reader q" "lfq_capacity q" "lfq_writer q"]
  by (simp add: lfq_inv_def lfq_count_def)

lemma lfq_empty_iff:
  "lfq_inv sz q \<Longrightarrow> lfq_reader q = lfq_writer q \<longleftrightarrow> lfq_count q = 0"
  using ring_empty_iff [of "lfq_reader q" "lfq_capacity q" "lfq_writer q"]
  by (simp add: lfq_inv_def lfq_count_def)

lemma lfq_push_full:
  "lfq_inv sz q \<Longrightarrow> lfq_count q = sz \<Longrightarrow> LockFreeQueue_push elem q = (False, q)"
  using lfq_full_iff[of sz q] by (simp add: LockFreeQueue_push_def Let_def)

lemma lfq_push_ok:
  assumes "lfq_inv sz q" "lfq_count q < sz"
  shows "fst (LockFreeQueue_push elem q) = True"
    and "lfq_inv sz (snd (LockFreeQueue_push elem q))"
    and "lfq_contents (snd (LockFreeQueue_push elem q)) = lfq_contents q @ [elem]"
proof -
  let ?c = "lfq_capacity q" and ?r = "lfq_reader q" and ?w = "lfq_writer q"
  define q' where "q' = snd (LockFreeQueue_push elem q)"
  from assms have c: "?c = sz + 1" and r: "?r < ?c" and w: "?w < ?c"
    and len: "length (lfq_data q) = ?c"
    by (simp_all add: lfq_inv_def)
  from assms lfq_full_iff[of sz q] have nf: "(?w + 1) mod ?c \<noteq> ?r" by simp
  then have res: "fst (LockFreeQueue_push elem q) = True"
    and fields: "lfq_capacity q' = ?c" "lfq_reader q' = ?r" "lfq_writer q' = (?w + 1) mod ?c"
      "lfq_data q' = (lfq_data q)[?w := elem]"
    by (simp_all add: q'_def LockFreeQueue_push_def Let_def)
  show "fst (LockFreeQueue_push elem q) = True" by (rule res)
  have "lfq_inv sz q'"
    using c r w len by (simp add: fields lfq_inv_def)
  then show "lfq_inv sz (snd (LockFreeQueue_push elem q))" by (simp add: q'_def)
  have cnt: "lfq_count q' = Suc (lfq_count q)"
    unfolding lfq_count_def fields using r w nf by (rule ring_count_push)
  have last: "(?r + lfq_count q) mod ?c = ?w"
    unfolding lfq_count_def using r w by (rule ring_end)
  have before: "?w \<noteq> (?r + i) mod ?c" if "i < lfq_count q" for i
    using r w that unfolding lfq_count_def by (rule ring_before_end)
  have old: "map (\<lambda>i. (lfq_data q)[?w := elem] ! ((?r + i) mod ?c)) [0..<lfq_count q] =
        lfq_contents q"
    unfolding lfq_contents_def using before by (intro map_cong) (simp_all add: nth_list_update_neq)
  have new: "(lfq_data q)[?w := elem] ! ((?r + lfq_count q) mod ?c) = elem"
    using w len by (simp add: last)
  have "lfq_contents q' = lfq_contents q @ [elem]"
    unfolding lfq_contents_def [of q'] fields cnt by (simp add: old new)
  then show "lfq_contents (snd (LockFreeQueue_push elem q)) = lfq_contents q @ [elem]"
    by (simp add: q'_def)
qed

lemma lfq_pop_empty:
  "lfq_inv sz q \<Longrightarrow> lfq_count q = 0 \<Longrightarrow> LockFreeQueue_pop e q = (False, e, q)"
  using lfq_empty_iff[of sz q] by (simp add: LockFreeQueue_pop_def Let_def)

lemma lfq_pop_ok:
  assumes "lfq_inv sz q" "lfq_count q > 0"
  shows "fst (LockFreeQueue_pop e q) = True"
    and "fst (snd (LockFreeQueue_pop e q)) = hd (lfq_contents q)"
    and "lfq_inv sz (snd (snd (LockFreeQueue_pop e q)))"
    and "lfq_contents (snd (snd (LockFreeQueue_pop e q))) = tl (lfq_contents q)"
proof -
  let ?c = "lfq_capacity q" and ?r = "lfq_reader q" and ?w = "lfq_writer q"
  define q' where "q' = snd (snd (LockFreeQueue_pop e q))"
  from assms have c: "?c = sz + 1" and r: "?r < ?c" and w: "?w < ?c"
    and len: "length (lfq_data q) = ?c"
    by (simp_all add: lfq_inv_def)
  from assms lfq_empty_iff[of sz q] have ne: "?r \<noteq> ?w" by simp
  then have res: "fst (LockFreeQueue_pop e q) = True"
    and out: "fst (snd (LockFreeQueue_pop e q)) = lfq_data q ! ?r"
    and fields: "lfq_capacity q' = ?c" "lfq_reader q' = (?r + 1) mod ?c" "lfq_writer q' = ?w"
      "lfq_data q' = lfq_data q"
    by (simp_all add: q'_def LockFreeQueue_pop_def Let_def)
  show "fst (LockFreeQueue_pop e q) = True" by (rule res)
  have "lfq_inv sz q'"
    using c r w len by (simp add: fields lfq_inv_def)
  then show "lfq_inv sz (snd (snd (LockFreeQueue_pop e q)))" by (simp add: q'_def)
  have cnt: "lfq_count q = Suc (lfq_count q')"
    unfolding lfq_count_def fields using r w ne by (rule ring_count_pop)
  have shift: "((?r + 1) mod ?c + i) mod ?c = (?r + Suc i) mod ?c" for i
    by (simp add: mod_add_left_eq)
  have "lfq_contents q = map (\<lambda>i. lfq_data q ! ((?r + i) mod ?c)) (0 # map Suc [0..<lfq_count q'])"
    unfolding lfq_contents_def [of q] cnt by (simp only: upt_conv_Cons [OF zero_less_Suc] map_Suc_upt)
  also have "\<dots> = lfq_data q ! ?r # lfq_contents q'"
    unfolding lfq_contents_def [of q'] fields shift using r by (simp add: comp_def)
  finally have "lfq_contents q = lfq_data q ! ?r # lfq_contents q'" .
  then show "fst (snd (LockFreeQueue_pop e q)) = hd (lfq_contents q)"
    and "lfq_contents (snd (snd (LockFreeQueue_pop e q))) = tl (lfq_contents q)"
    by (simp_all add: out q'_def)
qed


lemma lfq_push_inv: "lfq_inv sz q \<Longrightarrow> lfq_inv sz (snd (LockFreeQueue_push elem q))"
  by (cases "lfq_count q = sz")
     (use lfq_count_le [of sz q] in \<open>simp_all add: lfq_push_full lfq_push_ok(2)\<close>)

lemma lfq_pop_inv: "lfq_inv sz q \<Longrightarrow> lfq_inv sz (snd (snd (LockFreeQueue_pop e q)))"
  by (cases "lfq_count q = 0") (simp_all add: lfq_pop_empty lfq_pop_ok(3))

section \<open>Runs of calls of \<^verbatim>\<open>LockFreeQueue\<close>\<close>

lemma lfq_run_Push:
  "LockFreeQueue_run (Push v # cs) q =
     (Pushed (fst (LockFreeQueue_push v q)) # fst (LockFreeQueue_run cs (snd (LockFreeQueue_push v q))),
      snd (LockFreeQueue_run cs (snd (LockFreeQueue_push v q))))"
  by (simp split: prod.splits)

lemma lfq_run_Pop:
  "LockFreeQueue_run (Pop e # cs) q =
     (Popped (fst (LockFreeQueue_pop e q)) (fst (snd (LockFreeQueue_pop e q))) #
        fst (LockFreeQueue_run cs (snd (snd (LockFreeQueue_pop e q)))),
      snd (LockFreeQueue_run cs (snd (snd (LockFreeQueue_pop e q)))))"
  by (simp split: prod.splits)

lemmas lfq_run_step = LockFreeQueue_run.simps(1) lfq_run_Push lfq_run_Pop

lemma lfq_run_inv: "lfq_inv sz q \<Longrightarrow> lfq_inv sz (snd (LockFreeQueue_run cs q))"
proof (induction cs arbitrary: q)
  case Nil
  then show ?case by simp
next
  case (Cons c cs)
  show ?case
  proof (cases c)
    case (Push v)
    with Cons.IH [OF lfq_push_inv [OF Cons.prems, of v]] show ?thesis
      by (simp only: lfq_run_step snd_conv)
  next
    case (Pop e)
    with Cons.IH [OF lfq_pop_inv [OF Cons.prems, of e]] show ?thesis
      by (simp only: lfq_run_step snd_conv)
  qed
qed

lemma lfq_run_append:
  "LockFreeQueue_run (cs @ cs') q =
     (fst (LockFreeQueue_run cs q) @ fst (LockFreeQueue_run cs' (snd (LockFreeQueue_run cs q))),
      snd (LockFreeQueue_run cs' (snd (LockFreeQueue_run cs q))))"
proof (induction cs arbitrary: q)
  case Nil
  show ?case by simp
next
  case (Cons c cs)
  show ?case by (cases c) (simp_all only: append_Cons lfq_run_step Cons.IH fst_conv snd_conv)
qed

lemma lfq_run_pushes:
  assumes "lfq_inv sz q" "lfq_count q + length vs \<le> sz"
  shows "fst (LockFreeQueue_run (map Push vs) q) = map (\<lambda>v. Pushed True) vs \<and>
         lfq_inv sz (snd (LockFreeQueue_run (map Push vs) q)) \<and>
         lfq_contents (snd (LockFreeQueue_run (map Push vs) q)) = lfq_contents q @ vs"
  using assms
proof (induction vs arbitrary: q)
  case Nil
  then show ?case by simp
next
  case (Cons v vs)
  let ?q' = "snd (LockFreeQueue_push v q)"
  from Cons.prems have lt: "lfq_count q < sz" by simp
  note ok = lfq_push_ok [OF Cons.prems(1) lt, of v]
  from ok(3) Cons.prems(2) have "lfq_count ?q' + length vs \<le> sz"
    by (simp add: lfq_length_contents [symmetric])
  from Cons.IH [OF ok(2) this] ok(1,3) show ?case
    by (simp only: list.map lfq_run_step fst_conv snd_conv) simp
qed

lemma lfq_run_pops:
  assumes "lfq_inv sz q" "length es \<le> lfq_count q"
  shows "fst (LockFreeQueue_run (map Pop es) q) =
           map (Popped True) (take (length es) (lfq_contents q)) \<and>
         lfq_inv sz (snd (LockFreeQueue_run (map Pop es) q)) \<and>
         lfq_contents (snd (LockFreeQueue_run (map Pop es) q)) =
           drop (length es) (lfq_contents q)"
  using assms
proof (induction es arbitrary: q)
  case Nil
  then show ?case by simp
next
  case (Cons e es)
  let ?q' = "snd (snd (LockFreeQueue_pop e q))"
  from Cons.prems have pos: "0 < lfq_count q" by simp
  note ok = lfq_pop_ok [OF Cons.prems(1) pos, of e]
  from pos obtain x xs where c: "lfq_contents q = x # xs"
    by (cases "lfq_contents q") (simp_all add: lfq_length_contents [symmetric])
  from ok(4) Cons.prems(2) have "length es \<le> lfq_count ?q'"
    by (simp add: lfq_length_contents [symmetric])
  from Cons.IH [OF ok(3) this] ok(1,2,4) show ?case
    by (simp only: list.map lfq_run_step fst_conv snd_conv) (simp add: c)
qed

lemma replicate_4: "replicate 4 d = [d, d, d, d]"
  by (simp add: numeral_eq_Suc)

lemma lfq_init_count: "lfq_count (LockFreeQueue_init sz d) = 0"
  by (simp add: lfq_count_def LockFreeQueue_init_def)

lemma spec_live_count_eq:
  assumes "lfq_inv C q"
  shows "spec_live_count C q = int (lfq_count q)"
proof -
  let ?c = "lfq_capacity q" and ?r = "lfq_reader q" and ?w = "lfq_writer q"
  from assms have c: "?c = C + 1" and r: "?r < ?c" and w: "?w < ?c"
    by (simp_all add: lfq_inv_def)
  have "int (lfq_count q) = int (?w + ?c - ?r) mod int ?c"
    by (simp add: lfq_count_def zmod_int)
  also have "int (?w + ?c - ?r) = (int ?w - int ?r) + int ?c"
    using r by simp
  also have "((int ?w - int ?r) + int ?c) mod int ?c = (int ?w - int ?r) mod int ?c"
    by (rule mod_add_self2)
  finally show ?thesis
    by (simp add: spec_live_count_def c add.commute)
qed

lemma live_elements_Cons:
  "live_elements (r # rs) =
     (if stored r then 1 else 0) - (if taken r then 1 else 0) + live_elements rs"
  by (simp add: live_elements_def)

lemma lfq_push_count:
  assumes "lfq_inv sz q"
  shows "int (lfq_count (snd (LockFreeQueue_push v q))) =
           int (lfq_count q) + (if fst (LockFreeQueue_push v q) then 1 else 0)"
proof (cases "lfq_count q = sz")
  case True
  with assms show ?thesis by (simp add: lfq_push_full)
next
  case False
  with lfq_count_le [OF assms] have lt: "lfq_count q < sz" by simp
  from lfq_push_ok [OF assms lt, of v] show ?thesis
    by (simp add: lfq_length_contents [symmetric])
qed

lemma lfq_pop_count:
  assumes "lfq_inv sz q"
  shows "int (lfq_count (snd (snd (LockFreeQueue_pop e q)))) =
           int (lfq_count q) - (if fst (LockFreeQueue_pop e q) then 1 else 0)"
proof (cases "lfq_count q = 0")
  case True
  with assms show ?thesis by (simp add: lfq_pop_empty)
next
  case False
  then have pos: "0 < lfq_count q" by simp
  then obtain x xs where c: "lfq_contents q = x # xs"
    by (cases "lfq_contents q") (simp_all add: lfq_length_contents [symmetric])
  from lfq_pop_ok [OF assms pos, of e] show ?thesis
    by (simp add: lfq_length_contents [symmetric] c)
qed

lemma lfq_run_count:
  assumes "lfq_inv sz q"
  shows "int (lfq_count (snd (LockFreeQueue_run cs q))) =
           int (lfq_count q) + live_elements (fst (LockFreeQueue_run cs q))"
  using assms
proof (induction cs arbitrary: q)
  case Nil
  then show ?case by (simp add: live_elements_def)
next
  case (Cons c cs)
  show ?case
  proof (cases c)
    case (Push v)
    from Cons.IH [OF lfq_push_inv [OF Cons.prems, of v]] lfq_push_count [OF Cons.prems, of v]
    show ?thesis unfolding Push
      by (simp only: lfq_run_step fst_conv snd_conv live_elements_Cons)
         (simp add: stored_def taken_def)
  next
    case (Pop e)
    from Cons.IH [OF lfq_pop_inv [OF Cons.prems, of e]] lfq_pop_count [OF Cons.prems, of e]
    show ?thesis unfolding Pop
      by (simp only: lfq_run_step fst_conv snd_conv live_elements_Cons)
         (simp add: stored_def taken_def)
  qed
qed

section \<open>\<^verbatim>\<open>MutexedQueue\<close> simulates \<^verbatim>\<open>LockFreeQueue\<close>\<close>

lemma mq_push_sim:
  "MutexedQueue_push v (mq_of q) =
     Some (fst (LockFreeQueue_push v q), mq_of (snd (LockFreeQueue_push v q)))"
  by (simp add: MutexedQueue_push_def LockFreeQueue_push_def mq_of_def Let_def)

lemma mq_pop_sim:
  "MutexedQueue_pop e (mq_of q) =
     Some (fst (LockFreeQueue_pop e q), fst (snd (LockFreeQueue_pop e q)),
           mq_of (snd (snd (LockFreeQueue_pop e q))))"
  by (simp add: MutexedQueue_pop_def LockFreeQueue_pop_def mq_of_def Let_def)

lemma mq_run_sim:
  "MutexedQueue_run cs (mq_of q) =
     Some (fst (LockFreeQueue_run cs q), mq_of (snd (LockFreeQueue_run cs q)))"
proof (induction cs arbitrary: q)
  case Nil
  show ?case by simp
next
  case (Cons c cs)
  show ?case
    by (cases c) (simp_all add: mq_push_sim mq_pop_sim Cons.IH split: prod.splits)
qed

lemma mq_init_sim: "MutexedQueue_init sz d = mq_of (LockFreeQueue_init sz d)"
  by (simp add: MutexedQueue_init_def LockFreeQueue_init_def mq_of_def)

section \<open>Properties of \<^verbatim>\<open>LockFreeQueue\<close> and \<^verbatim>\<open>MutexedQueue\<close>\<close>

text \<open>
  Claim C1 (FIFO order). From the freshly constructed \<^verbatim>\<open>LockFreeQueue<T, sz>\<close>, for all values
  \<open>vs\<close> with \<open>length vs \<le> sz\<close>: pushing them one after another with no \<^verbatim>\<open>pop\<close> in between
  returns true every time, and as many calls of \<^verbatim>\<open>pop\<close> after that return true every time and
  yield exactly \<open>vs\<close>, in the order pushed. (\<open>es\<close> are the values the caller's variables hold
  before the calls of \<^verbatim>\<open>pop\<close>.)
\<close>

theorem C1_fifo_order:
  assumes "length vs \<le> sz" and "length es = length vs"
  shows "fst (LockFreeQueue_run (map Push vs @ map Pop es) (LockFreeQueue_init sz d)) =
           map (\<lambda>v. Pushed True) vs @ map (Popped True) vs"
proof -
  let ?init = "LockFreeQueue_init sz d"
  let ?full = "snd (LockFreeQueue_run (map Push vs) ?init)"
  from assms(1) have "lfq_count ?init + length vs \<le> sz"
    by (simp add: lfq_init_count)
  from lfq_run_pushes [OF lfq_init_inv this]
  have pushes: "fst (LockFreeQueue_run (map Push vs) ?init) = map (\<lambda>v. Pushed True) vs"
    and inv: "lfq_inv sz ?full" and contents: "lfq_contents ?full = vs"
    by (simp_all add: lfq_init_contents)
  from contents assms(2) have "length es \<le> lfq_count ?full"
    by (simp add: lfq_length_contents [symmetric])
  from lfq_run_pops [OF inv this]
  have "fst (LockFreeQueue_run (map Pop es) ?full) = map (Popped True) vs"
    by (simp add: contents assms(2))
  with pushes show ?thesis
    by (simp add: lfq_run_append)
qed

theorem C1_fifo_order_witness:
  "length [7, 8, 9 :: nat] \<le> 3 \<and> length [0, 0, 0 :: nat] = length [7, 8, 9 :: nat] \<and>
   fst (LockFreeQueue_run [Push 7, Push 8, Push 9, Pop 0, Pop 0, Pop 0] (LockFreeQueue_init 3 (0 :: nat))) =
     [Pushed True, Pushed True, Pushed True, Popped True 7, Popped True 8, Popped True 9]"
  using C1_fifo_order [of "[7, 8, 9 :: nat]" 3 "[0, 0, 0]" 0] by simp

text \<open>
  Claim C2 (capacity bound). Starting from the freshly constructed \<^verbatim>\<open>LockFreeQueue<T,3>\<close>,
  three calls of \<^verbatim>\<open>push\<close> return true each, and a fourth returns false and leaves the queue
  as it was: the same reader index, writer index and array contents, the three stored
  values among them.
\<close>

theorem C2_fourth_push_fails_unchanged:
  "LockFreeQueue_run [Push v1, Push v2, Push v3] (LockFreeQueue_init 3 d) =
     ([Pushed True, Pushed True, Pushed True],
      \<lparr>lfq_capacity = 4, lfq_reader = 0, lfq_writer = 3, lfq_data = [v1, v2, v3, d]\<rparr>)
   \<and> LockFreeQueue_push v4
        \<lparr>lfq_capacity = 4, lfq_reader = 0, lfq_writer = 3, lfq_data = [v1, v2, v3, d]\<rparr> =
     (False,
      \<lparr>lfq_capacity = 4, lfq_reader = 0, lfq_writer = 3, lfq_data = [v1, v2, v3, d]\<rparr>)
   \<and> LockFreeQueue_run [Push v1, Push v2, Push v3, Push v4] (LockFreeQueue_init 3 d) =
     ([Pushed True, Pushed True, Pushed True, Pushed False],
      \<lparr>lfq_capacity = 4, lfq_reader = 0, lfq_writer = 3, lfq_data = [v1, v2, v3, d]\<rparr>)"
  by (simp add: LockFreeQueue_init_def LockFreeQueue_push_def Let_def replicate_4)

text \<open>
  Claim C7 (invariant). In every state \<open>q\<close> that calls of \<^verbatim>\<open>push\<close> and \<^verbatim>\<open>pop\<close> reach from the
  freshly constructed \<^verbatim>\<open>LockFreeQueue<T, C>\<close>, \<open>(writer - reader) mod (C + 1)\<close> is the number of
  live elements (stored and not yet taken) and lies between \<open>0\<close> and \<open>C\<close>; \<^verbatim>\<open>push\<close> returns
  false exactly when the writer index advanced by one modulo \<open>C + 1\<close> equals the reader
  index, which is exactly when \<open>C\<close> elements are live; \<^verbatim>\<open>pop\<close> returns false exactly when
  the two indices are equal, which is exactly when no element is live. As the statement
  is about every run of calls, every further \<^verbatim>\<open>push\<close> and \<^verbatim>\<open>pop\<close> keeps all of this.
\<close>

theorem C7_live_elements_invariant:
  assumes "LockFreeQueue_run cs (LockFreeQueue_init C d) = (rs, q)"
  shows "spec_live_count C q = live_elements rs
       \<and> 0 \<le> spec_live_count C q \<and> spec_live_count C q \<le> int C
       \<and> (fst (LockFreeQueue_push elem q) = False) = ((lfq_writer q + 1) mod (C + 1) = lfq_reader q)
       \<and> ((lfq_writer q + 1) mod (C + 1) = lfq_reader q) = (spec_live_count C q = int C)
       \<and> (fst (LockFreeQueue_pop e q) = False) = (lfq_writer q = lfq_reader q)
       \<and> (lfq_writer q = lfq_reader q) = (spec_live_count C q = 0)"
proof -
  from assms have q: "q = snd (LockFreeQueue_run cs (LockFreeQueue_init C d))"
    and rs: "rs = fst (LockFreeQueue_run cs (LockFreeQueue_init C d))"
    by simp_all
  have inv: "lfq_inv C q"
    unfolding q by (rule lfq_run_inv [OF lfq_init_inv])
  then have cap: "lfq_capacity q = C + 1" by (simp add: lfq_inv_def)
  note live = spec_live_count_eq [OF inv]
  have "int (lfq_count q) = live_elements rs"
    unfolding q rs
    using lfq_run_count [where q = "LockFreeQueue_init C d" and cs = cs and sz = C, OF lfq_init_inv]
    by (simp add: lfq_init_count)
  then have 1: "spec_live_count C q = live_elements rs"
    by (simp add: live)
  have 2: "0 \<le> spec_live_count C q"
    by (simp add: live)
  have 3: "spec_live_count C q \<le> int C"
    using lfq_count_le [OF inv] by (simp add: live)
  have 4: "(fst (LockFreeQueue_push elem q) = False) = ((lfq_writer q + 1) mod (C + 1) = lfq_reader q)"
    by (simp add: LockFreeQueue_push_def Let_def cap)
  have 5: "((lfq_writer q + 1) mod (C + 1) = lfq_reader q) = (spec_live_count C q = int C)"
    using lfq_full_iff [OF inv] by (simp add: cap live)
  have 6: "(fst (LockFreeQueue_pop e q) = False) = (lfq_writer q = lfq_reader q)"
    by (auto simp: LockFreeQueue_pop_def Let_def)
  have 7: "(lfq_writer q = lfq_reader q) = (spec_live_count C q = 0)"
    using lfq_empty_iff [OF inv] by (auto simp: live)
  from 1 2 3 4 5 6 7 show ?thesis
    by (intro conjI)
qed

theorem C7_live_elements_invariant_witness:
  "LockFreeQueue_run [Push 1, Push 2, Pop 0, Push 3, Push 4 :: nat call] (LockFreeQueue_init 3 0) =
     ([Pushed True, Pushed True, Popped True 1, Pushed True, Pushed True],
      \<lparr>lfq_capacity = 4, lfq_reader = 1, lfq_writer = 0, lfq_data = [1, 2, 3, 4]\<rparr>)
   \<and> spec_live_count 3 \<lparr>lfq_capacity = 4, lfq_reader = 1, lfq_writer = 0, lfq_data = [1, 2, 3, 4 :: nat]\<rparr> = 3
   \<and> fst (LockFreeQueue_push 5 \<lparr>lfq_capacity = 4, lfq_reader = 1, lfq_writer = 0, lfq_data = [1, 2, 3, 4 :: nat]\<rparr>) = False"
proof -
  have run: "LockFreeQueue_run [Push 1, Push 2, Pop 0, Push 3, Push 4 :: nat call] (LockFreeQueue_init 3 0) =
     ([Pushed True, Pushed True, Popped True 1, Pushed True, Pushed True],
      \<lparr>lfq_capacity = 4, lfq_reader = 1, lfq_writer = 0, lfq_data = [1, 2, 3, 4]\<rparr>)"
    by (simp add: LockFreeQueue_init_def LockFreeQueue_push_def LockFreeQueue_pop_def Let_def
          replicate_4)
  from C7_live_elements_invariant [OF run, of 5 0] run show ?thesis
    by (simp add: live_elements_def stored_def taken_def)
qed

text \<open>
  Claim C8 (reference queue). Started from their freshly constructed states, the same
  sequence of calls of \<^verbatim>\<open>push\<close> and \<^verbatim>\<open>pop\<close> returns from \<^verbatim>\<open>MutexedQueue<T, sz>\<close> every time,
  with the same flags and the same dequeued values as from \<^verbatim>\<open>LockFreeQueue<T, sz>\<close>, and
  leaves the same indices and array contents, with the mutex free.
\<close>

theorem C8_mutexed_queue_equivalent:
  "MutexedQueue_run cs (MutexedQueue_init sz d) =
     Some (fst (LockFreeQueue_run cs (LockFreeQueue_init sz d)),
           mq_of (snd (LockFreeQueue_run cs (LockFreeQueue_init sz d))))"
  unfolding mq_init_sim by (rule mq_run_sim)

section \<open>One call of \<^verbatim>\<open>UnboundedLockFreeQueue\<close>\<close>

lemmas ulfq_defs = UnboundedLockFreeQueue_init_def UnboundedLockFreeQueue_push_def
  UnboundedLockFreeQueue_pop_def UnboundedLockFreeQueue_push_store_def
  UnboundedLockFreeQueue_pop_load_def new_MemoryBlock_def
  delete_MemoryBlock_def deref_def assign_def MemoryBlock_init_def Let_def

lemma replicate_3: "replicate 3 d = [d, d, d]"
  by (simp add: numeral_3_eq_3)

lemma new_MemoryBlock_not_null: "new_MemoryBlock sz d h \<noteq> Inr (nullptr, h')"
  by (simp add: new_MemoryBlock_def Let_def)

lemma ulfq_push_room:
  assumes "\<not> ulfq_stop q" "ulfq_tail q = Ptr t" "t < length (cells h)" "cells h ! t = Some tb"
    and "(mb_writer tb + 1) mod ulfq_capacity q \<noteq> mb_reader tb"
  shows "UnboundedLockFreeQueue_push sz d elem q h =
    Inr (True, q,
      h\<lparr>cells := (cells h)[t := Some (tb\<lparr>mb_data := (mb_data tb)[mb_writer tb := elem],
                                          mb_writer := (mb_writer tb + 1) mod ulfq_capacity q\<rparr>)]\<rparr>)"
  using assms by (simp add: ulfq_defs)

lemma ulfq_push_grow:
  assumes "\<not> ulfq_stop q" "ulfq_tail q = Ptr t" "t < length (cells h)" "cells h ! t = Some tb"
    and "(mb_writer tb + 1) mod ulfq_capacity q = mb_reader tb" and "avail h \<noteq> 0"
  shows "UnboundedLockFreeQueue_push sz d elem q h =
    Inr (True, q\<lparr>ulfq_tail := Ptr (length (cells h))\<rparr>,
      h\<lparr>cells := (cells h)[t := Some (tb\<lparr>mb_next_block := Ptr (length (cells h))\<rparr>)] @
                  [Some \<lparr>mb_reader = 0, mb_writer = 1 mod ulfq_capacity q,
                         mb_next_block = nullptr, mb_data = (replicate (sz + 1) d)[0 := elem]\<rparr>],
        avail := avail h - 1,
        history := history h @ [Alloc (length (cells h))]\<rparr>)"
  using assms by (simp add: ulfq_defs nth_append list_update_append)

lemma ulfq_push_no_memory:
  assumes "\<not> ulfq_stop q" "ulfq_tail q = Ptr t" "t < length (cells h)" "cells h ! t = Some tb"
    and "(mb_writer tb + 1) mod ulfq_capacity q = mb_reader tb" and "avail h = 0"
  shows "UnboundedLockFreeQueue_push sz d elem q h = Inl bad_alloc"
  using assms by (simp add: ulfq_defs)

lemma ulfq_pop_take:
  assumes "\<not> ulfq_stop q" "ulfq_head q = Ptr a" "a < length (cells h)" "cells h ! a = Some hb"
    and "mb_reader hb \<noteq> mb_writer hb"
  shows "UnboundedLockFreeQueue_pop elem q h =
    Inr (True, mb_data hb ! mb_reader hb, q,
      h\<lparr>cells := (cells h)[a := Some (hb\<lparr>mb_reader := (mb_reader hb + 1) mod ulfq_capacity q\<rparr>)]\<rparr>)"
  using assms by (simp add: ulfq_defs)

lemma ulfq_pop_empty:
  assumes "\<not> ulfq_stop q" "ulfq_head q = Ptr a" "a < length (cells h)" "cells h ! a = Some hb"
    and "mb_reader hb = mb_writer hb" and "mb_next_block hb = nullptr"
  shows "UnboundedLockFreeQueue_pop elem q h = Inr (False, elem, q, h)"
  using assms by (simp add: ulfq_defs)

lemma ulfq_pop_advance_take:
  assumes "\<not> ulfq_stop q" "ulfq_head q = Ptr a" "a < length (cells h)" "cells h ! a = Some hb"
    and "mb_reader hb = mb_writer hb" and "mb_next_block hb = Ptr n"
    and "n \<noteq> a" "n < length (cells h)" "cells h ! n = Some nb" and "mb_writer nb \<noteq> 0"
  shows "UnboundedLockFreeQueue_pop elem q h =
    Inr (True, mb_data nb ! 0, q\<lparr>ulfq_head := Ptr n\<rparr>,
      h\<lparr>cells := (cells h)[a := None, n := Some (nb\<lparr>mb_reader := 1 mod ulfq_capacity q\<rparr>)],
        avail := avail h + 1,
        history := history h @ [Free a]\<rparr>)"
  using assms by (simp add: ulfq_defs)

lemma ulfq_pop_advance_empty:
  assumes "\<not> ulfq_stop q" "ulfq_head q = Ptr a" "a < length (cells h)" "cells h ! a = Some hb"
    and "mb_reader hb = mb_writer hb" and "mb_next_block hb = Ptr n"
    and "n \<noteq> a" "n < length (cells h)" "cells h ! n = Some nb" and "mb_writer nb = 0"
  shows "UnboundedLockFreeQueue_pop elem q h =
    Inr (False, elem, q\<lparr>ulfq_head := Ptr n\<rparr>,
      h\<lparr>cells := (cells h)[a := None],
        avail := avail h + 1,
        history := history h @ [Free a]\<rparr>)"
  using assms by (simp add: ulfq_defs)

lemma ulfq_push_stop:
  "UnboundedLockFreeQueue_push sz d elem q h = Inr (r, q', h') \<Longrightarrow> ulfq_stop q' = ulfq_stop q"
  by (auto simp: ulfq_defs split: if_splits sum.splits prod.splits ptr.splits option.splits)

lemma ulfq_pop_stop:
  "UnboundedLockFreeQueue_pop e q h = Inr (r, e', q', h') \<Longrightarrow> ulfq_stop q' = ulfq_stop q"
  by (auto simp: ulfq_defs split: if_splits sum.splits prod.splits ptr.splits option.splits)

lemma ulfq_destroy_loop_stop:
  "UnboundedLockFreeQueue_destroy_loop next_block current_head q h = Inr (q', h') \<Longrightarrow>
   ulfq_stop q' = ulfq_stop q"
proof (induction next_block current_head q h rule: UnboundedLockFreeQueue_destroy_loop.induct)
  case (1 next_block current_head q h)
  show ?case
  proof (cases "next_block = nullptr")
    case True
    from "1.prems" show ?thesis
      unfolding UnboundedLockFreeQueue_destroy_loop.simps [of next_block current_head q h]
      using True by simp
  next
    case False
    from "1.prems" [unfolded UnboundedLockFreeQueue_destroy_loop.simps [of next_block current_head q h]]
      False
    obtain b h1 h2 hb where
      "deref h current_head = Inr b"
      "assign current_head (b\<lparr>mb_next_block := nullptr\<rparr>) h = Inr h1"
      "delete_MemoryBlock current_head h1 = Inr h2"
      "deref h2 next_block = Inr hb"
      "UnboundedLockFreeQueue_destroy_loop (mb_next_block hb) next_block (q\<lparr>ulfq_head := next_block\<rparr>) h2 =
         Inr (q', h')"
      by (simp add: Let_def split: sum.splits)
    with "1.IH" [OF False, of "q\<lparr>ulfq_head := next_block\<rparr>" b h1 h2 next_block hb] show ?thesis
      by simp
  qed
qed

lemma ulfq_destroy_stop:
  "UnboundedLockFreeQueue_destroy q h = Inr (q', h') \<Longrightarrow> ulfq_stop q'"
  by (auto simp: UnboundedLockFreeQueue_destroy_def Let_def split: sum.splits
        dest!: ulfq_destroy_loop_stop)

lemma ulfq_push_in_two_steps:
  assumes "\<not> ulfq_stop q" "ulfq_tail q = Ptr t" "t < length (cells h)" "cells h ! t = Some tb"
    and "(mb_writer tb + 1) mod ulfq_capacity q = mb_reader tb"
  shows "UnboundedLockFreeQueue_push sz d elem q h =
    (case UnboundedLockFreeQueue_push_link sz d q h of
       Inl f \<Rightarrow> Inl f
     | Inr (q1, h2) \<Rightarrow>
         UnboundedLockFreeQueue_push_store (ulfq_tail q1) 0 (1 mod ulfq_capacity q1) elem q1 h2)"
  using assms
  by (simp add: UnboundedLockFreeQueue_push_def UnboundedLockFreeQueue_push_link_def
        new_MemoryBlock_def deref_def assign_def Let_def nth_append)

lemma ulfq_pop_between_link_and_store:
  "UnboundedLockFreeQueue_init 2 d \<lparr>cells = [], avail = 2, history = []\<rparr> =
     Inr (\<lparr>ulfq_capacity = 3, ulfq_head = Ptr 0, ulfq_tail = Ptr 0, ulfq_stop = False\<rparr>,
          \<lparr>cells = [Some \<lparr>mb_reader = 0, mb_writer = 0, mb_next_block = nullptr, mb_data = [d, d, d]\<rparr>],
           avail = 1, history = [Alloc 0]\<rparr>)
   \<and> UnboundedLockFreeQueue_run 2 d [Push v1, Push v2]
       \<lparr>ulfq_capacity = 3, ulfq_head = Ptr 0, ulfq_tail = Ptr 0, ulfq_stop = False\<rparr>
       \<lparr>cells = [Some \<lparr>mb_reader = 0, mb_writer = 0, mb_next_block = nullptr, mb_data = [d, d, d]\<rparr>],
        avail = 1, history = [Alloc 0]\<rparr> =
     Inr ([Pushed True, Pushed True],
          \<lparr>ulfq_capacity = 3, ulfq_head = Ptr 0, ulfq_tail = Ptr 0, ulfq_stop = False\<rparr>,
          \<lparr>cells = [Some \<lparr>mb_reader = 0, mb_writer = 2, mb_next_block = nullptr, mb_data = [v1, v2, d]\<rparr>],
           avail = 1, history = [Alloc 0]\<rparr>)
   \<and> UnboundedLockFreeQueue_push_link 2 d
       \<lparr>ulfq_capacity = 3, ulfq_head = Ptr 0, ulfq_tail = Ptr 0, ulfq_stop = False\<rparr>
       \<lparr>cells = [Some \<lparr>mb_reader = 0, mb_writer = 2, mb_next_block = nullptr, mb_data = [v1, v2, d]\<rparr>],
        avail = 1, history = [Alloc 0]\<rparr> =
     Inr (\<lparr>ulfq_capacity = 3, ulfq_head = Ptr 0, ulfq_tail = Ptr 1, ulfq_stop = False\<rparr>,
          \<lparr>cells = [Some \<lparr>mb_reader = 0, mb_writer = 2, mb_next_block = Ptr 1, mb_data = [v1, v2, d]\<rparr>,
                    Some \<lparr>mb_reader = 0, mb_writer = 0, mb_next_block = nullptr, mb_data = [d, d, d]\<rparr>],
           avail = 0, history = [Alloc 0, Alloc 1]\<rparr>)
   \<and> UnboundedLockFreeQueue_run 2 d [Pop e1, Pop e2, Pop e3]
       \<lparr>ulfq_capacity = 3, ulfq_head = Ptr 0, ulfq_tail = Ptr 1, ulfq_stop = False\<rparr>
       \<lparr>cells = [Some \<lparr>mb_reader = 0, mb_writer = 2, mb_next_block = Ptr 1, mb_data = [v1, v2, d]\<rparr>,
                 Some \<lparr>mb_reader = 0, mb_writer = 0, mb_next_block = nullptr, mb_data = [d, d, d]\<rparr>],
        avail = 0, history = [Alloc 0, Alloc 1]\<rparr> =
     Inr ([Popped True v1, Popped True v2, Popped False e3],
          \<lparr>ulfq_capacity = 3, ulfq_head = Ptr 1, ulfq_tail = Ptr 1, ulfq_stop = False\<rparr>,
          \<lparr>cells = [None,
                    Some \<lparr>mb_reader = 0, mb_writer = 0, mb_next_block = nullptr, mb_data = [d, d, d]\<rparr>],
           avail = 1, history = [Alloc 0, Alloc 1, Free 0]\<rparr>)
   \<and> UnboundedLockFreeQueue_push_store (Ptr 1) 0 (1 mod 3) v3
       \<lparr>ulfq_capacity = 3, ulfq_head = Ptr 1, ulfq_tail = Ptr 1, ulfq_stop = False\<rparr>
       \<lparr>cells = [None,
                 Some \<lparr>mb_reader = 0, mb_writer = 0, mb_next_block = nullptr, mb_data = [d, d, d]\<rparr>],
        avail = 1, history = [Alloc 0, Alloc 1, Free 0]\<rparr> =
     Inr (True,
          \<lparr>ulfq_capacity = 3, ulfq_head = Ptr 1, ulfq_tail = Ptr 1, ulfq_stop = False\<rparr>,
          \<lparr>cells = [None,
                    Some \<lparr>mb_reader = 0, mb_writer = 1, mb_next_block = nullptr, mb_data = [v3, d, d]\<rparr>],
           avail = 1, history = [Alloc 0, Alloc 1, Free 0]\<rparr>)
   \<and> UnboundedLockFreeQueue_pop e4
       \<lparr>ulfq_capacity = 3, ulfq_head = Ptr 1, ulfq_tail = Ptr 1, ulfq_stop = False\<rparr>
       \<lparr>cells = [None,
                 Some \<lparr>mb_reader = 0, mb_writer = 1, mb_next_block = nullptr, mb_data = [v3, d, d]\<rparr>],
        avail = 1, history = [Alloc 0, Alloc 1, Free 0]\<rparr> =
     Inr (True, v3,
          \<lparr>ulfq_capacity = 3, ulfq_head = Ptr 1, ulfq_tail = Ptr 1, ulfq_stop = False\<rparr>,
          \<lparr>cells = [None,
                    Some \<lparr>mb_reader = 1, mb_writer = 1, mb_next_block = nullptr, mb_data = [v3, d, d]\<rparr>],
           avail = 1, history = [Alloc 0, Alloc 1, Free 0]\<rparr>)"
  by (simp add: ulfq_defs UnboundedLockFreeQueue_push_link_def replicate_3)

section \<open>The chain of blocks stays well formed\<close>

lemma block_at_Some: "block_at h a = Some b \<longleftrightarrow> a < length (cells h) \<and> cells h ! a = Some b"
  by (simp add: block_at_def)

lemma block_at_update:
  "t < length (cells h) \<Longrightarrow>
   block_at (h\<lparr>cells := (cells h)[t := c]\<rparr>) a = (if a = t then c else block_at h a)"
  by (simp add: block_at_def)

lemma block_at_append:
  "block_at (h\<lparr>cells := xs @ [c]\<rparr>) a =
     (if a = length xs then c else block_at (h\<lparr>cells := xs\<rparr>) a)"
  by (auto simp: block_at_def nth_append)

lemma ulfq_init_wf:
  assumes "avail h0 \<noteq> 0"
  shows "\<exists>q h. UnboundedLockFreeQueue_init sz d h0 = Inr (q, h) \<and> ulfq_wf sz (length (cells h0)) q h"
  using assms
  by (auto simp: UnboundedLockFreeQueue_init_def new_MemoryBlock_def MemoryBlock_init_def
        Let_def ulfq_wf_def block_at_def nth_append)

lemma block_at_other_fields:
  "block_at (h\<lparr>avail := x\<rparr>) = block_at h"
  "block_at (h\<lparr>history := y\<rparr>) = block_at h"
  by (simp_all add: block_at_def fun_eq_iff)

lemma ulfq_wfI:
  assumes "ulfq_capacity q = sz + 1" "base \<le> length (cells h)"
    and "ulfq_head q = Ptr ha" "ulfq_tail q = Ptr ta" "base \<le> ha" "base \<le> ta"
    and "block_at h ha = Some hb" "block_at h ta = Some tb" "mb_next_block tb = nullptr"
    and "\<And>a b. base \<le> a \<Longrightarrow> block_at h a = Some b \<Longrightarrow>
           mb_reader b < sz + 1 \<and> mb_writer b < sz + 1 \<and> length (mb_data b) = sz + 1"
    and "\<And>a b n. base \<le> a \<Longrightarrow> block_at h a = Some b \<Longrightarrow> mb_next_block b = Ptr n \<Longrightarrow>
           base \<le> n \<and> block_at h n \<noteq> None \<and> n \<noteq> ha"
    and "\<And>a b a' b' n. base \<le> a \<Longrightarrow> block_at h a = Some b \<Longrightarrow> mb_next_block b = Ptr n \<Longrightarrow>
           base \<le> a' \<Longrightarrow> block_at h a' = Some b' \<Longrightarrow> mb_next_block b' = Ptr n \<Longrightarrow> a' = a"
  shows "ulfq_wf sz base q h"
  unfolding ulfq_wf_def
proof (intro conjI allI impI)
  show "ulfq_capacity q = sz + 1" "base \<le> length (cells h)" by fact+
  show "\<exists>ha ta hb tb. ulfq_head q = Ptr ha \<and> ulfq_tail q = Ptr ta \<and> base \<le> ha \<and> base \<le> ta \<and>
        block_at h ha = Some hb \<and> block_at h ta = Some tb \<and> mb_next_block tb = nullptr"
    using assms(3-9) by blast
next
  fix a b assume ab: "base \<le> a" "block_at h a = Some b"
  from assms(10) [OF ab]
  show "mb_reader b < sz + 1" "mb_writer b < sz + 1" "length (mb_data b) = sz + 1"
    by simp_all
  fix n assume n: "mb_next_block b = Ptr n"
  from assms(11) [OF ab n] assms(3)
  show "base \<le> n" "block_at h n \<noteq> None" "ulfq_head q \<noteq> Ptr n"
    by simp_all
  fix a' b' assume "base \<le> a'" "block_at h a' = Some b'" "mb_next_block b' = Ptr n"
  with ab n show "a' = a" by (rule assms(12))
qed

lemma ulfq_wfE:
  assumes "ulfq_wf sz base q h"
  obtains ha ta hb tb where
    "ulfq_capacity q = sz + 1" "base \<le> length (cells h)"
    "ulfq_head q = Ptr ha" "ulfq_tail q = Ptr ta" "base \<le> ha" "base \<le> ta"
    "block_at h ha = Some hb" "block_at h ta = Some tb" "mb_next_block tb = nullptr"
    "\<And>a b. base \<le> a \<Longrightarrow> block_at h a = Some b \<Longrightarrow>
           mb_reader b < sz + 1 \<and> mb_writer b < sz + 1 \<and> length (mb_data b) = sz + 1"
    "\<And>a b n. base \<le> a \<Longrightarrow> block_at h a = Some b \<Longrightarrow> mb_next_block b = Ptr n \<Longrightarrow>
           base \<le> n \<and> block_at h n \<noteq> None \<and> n \<noteq> ha"
    "\<And>a b a' b' n. base \<le> a \<Longrightarrow> block_at h a = Some b \<Longrightarrow> mb_next_block b = Ptr n \<Longrightarrow>
           base \<le> a' \<Longrightarrow> block_at h a' = Some b' \<Longrightarrow> mb_next_block b' = Ptr n \<Longrightarrow> a' = a"
proof -
  from assms obtain ha ta hb tb where
    1: "ulfq_capacity q = sz + 1" "base \<le> length (cells h)"
    "ulfq_head q = Ptr ha" "ulfq_tail q = Ptr ta" "base \<le> ha" "base \<le> ta"
    "block_at h ha = Some hb" "block_at h ta = Some tb" "mb_next_block tb = nullptr"
    and 2: "\<forall>a b. base \<le> a \<longrightarrow> block_at h a = Some b \<longrightarrow>
        mb_reader b < sz + 1 \<and> mb_writer b < sz + 1 \<and> length (mb_data b) = sz + 1 \<and>
        (\<forall>n. mb_next_block b = Ptr n \<longrightarrow>
           base \<le> n \<and> block_at h n \<noteq> None \<and> ulfq_head q \<noteq> Ptr n \<and>
           (\<forall>a' b'. base \<le> a' \<longrightarrow> block_at h a' = Some b' \<longrightarrow> mb_next_block b' = Ptr n \<longrightarrow> a' = a))"
    unfolding ulfq_wf_def by blast
  show thesis
  proof (rule that [OF 1])
    fix a b assume "base \<le> a" "block_at h a = Some b"
    with 2 show "mb_reader b < sz + 1 \<and> mb_writer b < sz + 1 \<and> length (mb_data b) = sz + 1"
      by blast
  next
    fix a b n assume "base \<le> a" "block_at h a = Some b" "mb_next_block b = Ptr n"
    with 2 have "base \<le> n \<and> block_at h n \<noteq> None \<and> ulfq_head q \<noteq> Ptr n" by blast
    with 1(3) show "base \<le> n \<and> block_at h n \<noteq> None \<and> n \<noteq> ha" by auto
  next
    fix a b a' b' n
    assume "base \<le> a" "block_at h a = Some b" "mb_next_block b = Ptr n"
      "base \<le> a'" "block_at h a' = Some b'" "mb_next_block b' = Ptr n"
    with 2 show "a' = a" by blast
  qed
qed

lemma ulfq_wf_update_block:
  assumes wf: "ulfq_wf sz base q h" and t: "block_at h t = Some b"
    and link: "mb_next_block b' = mb_next_block b"
    and bounds: "mb_reader b' < sz + 1" "mb_writer b' < sz + 1" "length (mb_data b') = sz + 1"
  shows "ulfq_wf sz base q (h\<lparr>cells := (cells h)[t := Some b']\<rparr>)"
proof -
  let ?h = "h\<lparr>cells := (cells h)[t := Some b']\<rparr>"
  from t have lt: "t < length (cells h)" by (simp add: block_at_Some)
  have at: "block_at ?h a = (if a = t then Some b' else block_at h a)" for a
    using lt by (rule block_at_update)
  from wf show ?thesis
  proof (rule ulfq_wfE)
    fix ha ta hb tb
    assume 1: "ulfq_capacity q = sz + 1" "base \<le> length (cells h)"
      "ulfq_head q = Ptr ha" "ulfq_tail q = Ptr ta" "base \<le> ha" "base \<le> ta"
      "block_at h ha = Some hb" "block_at h ta = Some tb" "mb_next_block tb = nullptr"
    and B: "\<And>a b. base \<le> a \<Longrightarrow> block_at h a = Some b \<Longrightarrow>
           mb_reader b < sz + 1 \<and> mb_writer b < sz + 1 \<and> length (mb_data b) = sz + 1"
    and L: "\<And>a b n. base \<le> a \<Longrightarrow> block_at h a = Some b \<Longrightarrow> mb_next_block b = Ptr n \<Longrightarrow>
           base \<le> n \<and> block_at h n \<noteq> None \<and> n \<noteq> ha"
    and I: "\<And>a b a' b' n. base \<le> a \<Longrightarrow> block_at h a = Some b \<Longrightarrow> mb_next_block b = Ptr n \<Longrightarrow>
           base \<le> a' \<Longrightarrow> block_at h a' = Some b' \<Longrightarrow> mb_next_block b' = Ptr n \<Longrightarrow> a' = a"
    have old: "\<exists>c. block_at h a = Some c \<and> mb_next_block c = mb_next_block x"
      if "block_at ?h a = Some x" for a x
      using that t link by (auto simp: at split: if_splits)
    show ?thesis
    proof (rule ulfq_wfI [where ha = ha and ta = ta
          and hb = "if ha = t then b' else hb" and tb = "if ta = t then b' else tb"])
      show "ulfq_capacity q = sz + 1" "ulfq_head q = Ptr ha" "ulfq_tail q = Ptr ta"
        "base \<le> ha" "base \<le> ta" by fact+
      show "base \<le> length (cells ?h)" using 1(2) by simp
      show "block_at ?h ha = Some (if ha = t then b' else hb)" using 1(7) by (simp add: at)
      show "block_at ?h ta = Some (if ta = t then b' else tb)" using 1(8) by (simp add: at)
      show "mb_next_block (if ta = t then b' else tb) = nullptr"
        using 1(8,9) t link by auto
    next
      fix a x assume "base \<le> a" "block_at ?h a = Some x"
      then show "mb_reader x < sz + 1 \<and> mb_writer x < sz + 1 \<and> length (mb_data x) = sz + 1"
        using B [of a] bounds by (auto simp: at split: if_splits)
    next
      fix a x n assume a: "base \<le> a" "block_at ?h a = Some x" "mb_next_block x = Ptr n"
      from old [OF a(2)] a(3) obtain c where "block_at h a = Some c" "mb_next_block c = Ptr n"
        by auto
      from L [OF a(1) this] show "base \<le> n \<and> block_at ?h n \<noteq> None \<and> n \<noteq> ha"
        by (auto simp: at)
    next
      fix a x a' x' n
      assume a: "base \<le> a" "block_at ?h a = Some x" "mb_next_block x = Ptr n"
        and a': "base \<le> a'" "block_at ?h a' = Some x'" "mb_next_block x' = Ptr n"
      from old [OF a(2)] a(3) obtain c where c: "block_at h a = Some c" "mb_next_block c = Ptr n"
        by auto
      from old [OF a'(2)] a'(3) obtain c' where c': "block_at h a' = Some c'" "mb_next_block c' = Ptr n"
        by auto
      from I [OF a(1) c a'(1) c'] show "a' = a" .
    qed
  qed
qed

lemma ulfq_wf_grow:
  assumes wf: "ulfq_wf sz base q h" and tail: "ulfq_tail q = Ptr t" and t: "block_at h t = Some tb"
    and fresh: "mb_next_block nb = nullptr"
      "mb_reader nb < sz + 1" "mb_writer nb < sz + 1" "length (mb_data nb) = sz + 1"
  shows "ulfq_wf sz base (q\<lparr>ulfq_tail := Ptr (length (cells h))\<rparr>)
           (h\<lparr>cells := (cells h)[t := Some (tb\<lparr>mb_next_block := Ptr (length (cells h))\<rparr>)] @ [Some nb],
              avail := x, history := y\<rparr>)"
proof -
  let ?n = "length (cells h)"
  let ?tb = "tb\<lparr>mb_next_block := Ptr ?n\<rparr>"
  let ?h = "h\<lparr>cells := (cells h)[t := Some ?tb] @ [Some nb], avail := x, history := y\<rparr>"
  let ?q = "q\<lparr>ulfq_tail := Ptr ?n\<rparr>"
  from t have lt: "t < ?n" by (simp add: block_at_Some)
  have at: "block_at ?h a = (if a = ?n then Some nb else if a = t then Some ?tb else block_at h a)" for a
    using lt by (auto simp: block_at_def nth_append)
  have live: "block_at h a = Some c \<Longrightarrow> a < ?n" for a c
    by (simp add: block_at_Some)
  from wf show ?thesis
  proof (rule ulfq_wfE)
    fix ha ta hb tb'
    assume 1: "ulfq_capacity q = sz + 1" "base \<le> length (cells h)"
      "ulfq_head q = Ptr ha" "ulfq_tail q = Ptr ta" "base \<le> ha" "base \<le> ta"
      "block_at h ha = Some hb" "block_at h ta = Some tb'" "mb_next_block tb' = nullptr"
    and B: "\<And>a b. base \<le> a \<Longrightarrow> block_at h a = Some b \<Longrightarrow>
           mb_reader b < sz + 1 \<and> mb_writer b < sz + 1 \<and> length (mb_data b) = sz + 1"
    and L: "\<And>a b n. base \<le> a \<Longrightarrow> block_at h a = Some b \<Longrightarrow> mb_next_block b = Ptr n \<Longrightarrow>
           base \<le> n \<and> block_at h n \<noteq> None \<and> n \<noteq> ha"
    and I: "\<And>a b a' b' n. base \<le> a \<Longrightarrow> block_at h a = Some b \<Longrightarrow> mb_next_block b = Ptr n \<Longrightarrow>
           base \<le> a' \<Longrightarrow> block_at h a' = Some b' \<Longrightarrow> mb_next_block b' = Ptr n \<Longrightarrow> a' = a"
    from tail 1(4) have ta: "ta = t" by simp
    with t 1(8,9) have tbn: "mb_next_block tb = nullptr" by simp
    from 1(7) have ha: "ha < ?n" by (rule live)
    have target: "m < ?n" if "base \<le> a" "block_at h a = Some c" "mb_next_block c = Ptr m" for a c m
      using L [OF that] by (auto simp: block_at_def split: if_splits)
    have old: "(a = t \<and> x' = ?tb \<and> m = ?n) \<or>
               (a \<noteq> t \<and> block_at h a = Some x' \<and> m < ?n)"
      if "base \<le> a" "block_at ?h a = Some x'" "mb_next_block x' = Ptr m" for a x' m
      using that fresh(1) target [of a x' m] by (auto simp: at split: if_splits)
    show ?thesis
    proof (rule ulfq_wfI [where ha = ha and ta = ?n
          and hb = "if ha = t then ?tb else hb" and tb = nb])
      show "ulfq_capacity ?q = sz + 1" "ulfq_head ?q = Ptr ha" "ulfq_tail ?q = Ptr ?n"
        "base \<le> ha" "base \<le> ?n" using 1 by simp_all
      show "base \<le> length (cells ?h)" using 1(2) by simp
      show "block_at ?h ha = Some (if ha = t then ?tb else hb)" using 1(7) ha by (simp add: at)
      show "block_at ?h ?n = Some nb" by (simp add: at)
      show "mb_next_block nb = nullptr" by fact
    next
      fix a c assume "base \<le> a" "block_at ?h a = Some c"
      then show "mb_reader c < sz + 1 \<and> mb_writer c < sz + 1 \<and> length (mb_data c) = sz + 1"
        using B [of a] B [of t tb] t ta 1(6) fresh by (auto simp: at split: if_splits)
    next
      fix a c m assume a: "base \<le> a" "block_at ?h a = Some c" "mb_next_block c = Ptr m"
      from old [OF a] show "base \<le> m \<and> block_at ?h m \<noteq> None \<and> m \<noteq> ha"
      proof
        assume "a = t \<and> c = ?tb \<and> m = ?n"
        then show ?thesis using 1(2) ha by (simp add: at)
      next
        assume *: "a \<noteq> t \<and> block_at h a = Some c \<and> m < ?n"
        with L [OF a(1) _ a(3), of ] show ?thesis by (auto simp: at)
      qed
    next
      fix a c a' c' m
      assume a: "base \<le> a" "block_at ?h a = Some c" "mb_next_block c = Ptr m"
        and a': "base \<le> a'" "block_at ?h a' = Some c'" "mb_next_block c' = Ptr m"
      from old [OF a] old [OF a'] show "a' = a"
        using I [OF a(1) _ a(3) a'(1) _ a'(3)] by auto
    qed
  qed
qed

lemma ulfq_wf_advance:
  assumes wf: "ulfq_wf sz base q h" and head: "ulfq_head q = Ptr a0"
    and a0: "block_at h a0 = Some hb0" and succ: "mb_next_block hb0 = Ptr n"
  shows "ulfq_wf sz base (q\<lparr>ulfq_head := Ptr n\<rparr>)
           (h\<lparr>cells := (cells h)[a0 := None], avail := x, history := y\<rparr>)"
proof -
  let ?h = "h\<lparr>cells := (cells h)[a0 := None], avail := x, history := y\<rparr>"
  let ?q = "q\<lparr>ulfq_head := Ptr n\<rparr>"
  from a0 have lt: "a0 < length (cells h)" by (simp add: block_at_Some)
  have at: "block_at ?h a = (if a = a0 then None else block_at h a)" for a
    using lt by (auto simp: block_at_def)
  from wf show ?thesis
  proof (rule ulfq_wfE)
    fix ha ta hb tb
    assume 1: "ulfq_capacity q = sz + 1" "base \<le> length (cells h)"
      "ulfq_head q = Ptr ha" "ulfq_tail q = Ptr ta" "base \<le> ha" "base \<le> ta"
      "block_at h ha = Some hb" "block_at h ta = Some tb" "mb_next_block tb = nullptr"
    and B: "\<And>a b. base \<le> a \<Longrightarrow> block_at h a = Some b \<Longrightarrow>
           mb_reader b < sz + 1 \<and> mb_writer b < sz + 1 \<and> length (mb_data b) = sz + 1"
    and L: "\<And>a b n. base \<le> a \<Longrightarrow> block_at h a = Some b \<Longrightarrow> mb_next_block b = Ptr n \<Longrightarrow>
           base \<le> n \<and> block_at h n \<noteq> None \<and> n \<noteq> ha"
    and I: "\<And>a b a' b' n. base \<le> a \<Longrightarrow> block_at h a = Some b \<Longrightarrow> mb_next_block b = Ptr n \<Longrightarrow>
           base \<le> a' \<Longrightarrow> block_at h a' = Some b' \<Longrightarrow> mb_next_block b' = Ptr n \<Longrightarrow> a' = a"
    from head 1(3) have ha: "ha = a0" by simp
    with a0 1(7) have hb: "hb = hb0" by simp
    from L [OF 1(5) 1(7)] succ hb ha
    have n: "base \<le> n" "block_at h n \<noteq> None" "n \<noteq> a0" by auto
    then obtain nb where nb: "block_at h n = Some nb" by auto
    from 1(8,9) a0 succ have ta: "ta \<noteq> a0" by auto
    show ?thesis
    proof (rule ulfq_wfI [where ha = n and ta = ta and hb = nb and tb = tb])
      show "ulfq_capacity ?q = sz + 1" "ulfq_head ?q = Ptr n" "ulfq_tail ?q = Ptr ta"
        "base \<le> n" "base \<le> ta" using 1 n by simp_all
      show "base \<le> length (cells ?h)" using 1(2) by simp
      show "block_at ?h n = Some nb" using nb n(3) by (simp add: at)
      show "block_at ?h ta = Some tb" using 1(8) ta by (simp add: at)
      show "mb_next_block tb = nullptr" by fact
    next
      fix a c assume "base \<le> a" "block_at ?h a = Some c"
      then show "mb_reader c < sz + 1 \<and> mb_writer c < sz + 1 \<and> length (mb_data c) = sz + 1"
        using B [of a c] by (auto simp: at split: if_splits)
    next
      fix a c m assume a: "base \<le> a" "block_at ?h a = Some c" "mb_next_block c = Ptr m"
      then have c: "a \<noteq> a0" "block_at h a = Some c" by (auto simp: at split: if_splits)
      from L [OF a(1) c(2) a(3)] ha have m: "base \<le> m" "block_at h m \<noteq> None" "m \<noteq> a0" by auto
      have "m \<noteq> n"
      proof
        assume "m = n"
        with I [OF 1(5) 1(7) _ a(1) c(2), of n] succ hb a(3) have "a = ha" by simp
        with ha c(1) show False by simp
      qed
      with m show "base \<le> m \<and> block_at ?h m \<noteq> None \<and> m \<noteq> n" by (simp add: at)
    next
      fix a c a' c' m
      assume a: "base \<le> a" "block_at ?h a = Some c" "mb_next_block c = Ptr m"
        and a': "base \<le> a'" "block_at ?h a' = Some c'" "mb_next_block c' = Ptr m"
      from a(2) a'(2) have "block_at h a = Some c" "block_at h a' = Some c'"
        by (auto simp: at split: if_splits)
      with I [OF a(1) _ a(3) a'(1) _ a'(3)] show "a' = a" by simp
    qed
  qed
qed

lemma ulfq_push_wf:
  assumes wf: "ulfq_wf sz base q h"
  shows "UnboundedLockFreeQueue_push sz d elem q h = Inl bad_alloc \<or>
         (\<exists>r q' h'. UnboundedLockFreeQueue_push sz d elem q h = Inr (r, q', h') \<and> ulfq_wf sz base q' h')"
proof (cases "ulfq_stop q")
  case True
  then have "UnboundedLockFreeQueue_push sz d elem q h = Inr (False, q, h)"
    by (simp add: UnboundedLockFreeQueue_push_def)
  with wf show ?thesis by blast
next
  case False
  from wf show ?thesis
  proof (rule ulfq_wfE)
    fix ha ta hb tb
    assume 1: "ulfq_capacity q = sz + 1" "ulfq_tail q = Ptr ta" "base \<le> ta"
      "block_at h ta = Some tb"
    and B: "\<And>a b. base \<le> a \<Longrightarrow> block_at h a = Some b \<Longrightarrow>
           mb_reader b < sz + 1 \<and> mb_writer b < sz + 1 \<and> length (mb_data b) = sz + 1"
    from 1(4) have live: "ta < length (cells h)" "cells h ! ta = Some tb"
      by (simp_all add: block_at_Some)
    from B [OF 1(3,4)] have tb: "mb_reader tb < sz + 1" "length (mb_data tb) = sz + 1"
      by simp_all
    show ?thesis
    proof (cases "(mb_writer tb + 1) mod ulfq_capacity q = mb_reader tb")
      case room: False
      let ?b = "tb\<lparr>mb_data := (mb_data tb)[mb_writer tb := elem],
                    mb_writer := (mb_writer tb + 1) mod ulfq_capacity q\<rparr>"
      have "ulfq_wf sz base q (h\<lparr>cells := (cells h)[ta := Some ?b]\<rparr>)"
        using wf 1(4) by (rule ulfq_wf_update_block) (use tb 1(1) in simp_all)
      with ulfq_push_room [OF False 1(2) live room, of sz d elem] show ?thesis
        by blast
    next
      case full: True
      show ?thesis
      proof (cases "avail h = 0")
        case True
        with ulfq_push_no_memory [OF False 1(2) live full, of sz d elem] show ?thesis
          by blast
      next
        case avail: False
        let ?nb = "\<lparr>mb_reader = 0, mb_writer = 1 mod ulfq_capacity q,
                     mb_next_block = nullptr, mb_data = (replicate (sz + 1) d)[0 := elem]\<rparr>"
        have "ulfq_wf sz base (q\<lparr>ulfq_tail := Ptr (length (cells h))\<rparr>)
           (h\<lparr>cells := (cells h)[ta := Some (tb\<lparr>mb_next_block := Ptr (length (cells h))\<rparr>)] @ [Some ?nb],
              avail := avail h - 1, history := history h @ [Alloc (length (cells h))]\<rparr>)"
          using wf 1(2,4) by (rule ulfq_wf_grow) (use 1(1) in simp_all)
        with ulfq_push_grow [OF False 1(2) live full avail, of sz d elem] show ?thesis
          by blast
      qed
    qed
  qed
qed

lemma ulfq_pop_wf:
  assumes wf: "ulfq_wf sz base q h"
  shows "\<exists>r e' q' h'. UnboundedLockFreeQueue_pop e q h = Inr (r, e', q', h') \<and> ulfq_wf sz base q' h'"
proof (cases "ulfq_stop q")
  case True
  then have "UnboundedLockFreeQueue_pop e q h = Inr (False, e, q, h)"
    by (simp add: UnboundedLockFreeQueue_pop_def)
  with wf show ?thesis by blast
next
  case False
  from wf show ?thesis
  proof (rule ulfq_wfE)
    fix ha ta hb tb
    assume 1: "ulfq_capacity q = sz + 1" "ulfq_head q = Ptr ha" "base \<le> ha"
      "block_at h ha = Some hb"
    and B: "\<And>a b. base \<le> a \<Longrightarrow> block_at h a = Some b \<Longrightarrow>
           mb_reader b < sz + 1 \<and> mb_writer b < sz + 1 \<and> length (mb_data b) = sz + 1"
    and L: "\<And>a b n. base \<le> a \<Longrightarrow> block_at h a = Some b \<Longrightarrow> mb_next_block b = Ptr n \<Longrightarrow>
           base \<le> n \<and> block_at h n \<noteq> None \<and> n \<noteq> ha"
    from 1(4) have live: "ha < length (cells h)" "cells h ! ha = Some hb"
      by (simp_all add: block_at_Some)
    from B [OF 1(3,4)] have hb: "mb_writer hb < sz + 1" "length (mb_data hb) = sz + 1"
      by simp_all
    show ?thesis
    proof (cases "mb_reader hb = mb_writer hb")
      case some: False
      let ?b = "hb\<lparr>mb_reader := (mb_reader hb + 1) mod ulfq_capacity q\<rparr>"
      have "ulfq_wf sz base q (h\<lparr>cells := (cells h)[ha := Some ?b]\<rparr>)"
        using wf 1(4) by (rule ulfq_wf_update_block) (use hb 1(1) in simp_all)
      with ulfq_pop_take [OF False 1(2) live some, of e] show ?thesis
        by blast
    next
      case drained: True
      show ?thesis
      proof (cases "mb_next_block hb")
        case nullptr
        with ulfq_pop_empty [OF False 1(2) live drained, of e] wf show ?thesis
          by blast
      next
        case (Ptr n)
        from L [OF 1(3,4) Ptr] obtain nb where
          n: "base \<le> n" "n \<noteq> ha" "block_at h n = Some nb"
          by auto
        from n(3) have nlive: "n < length (cells h)" "cells h ! n = Some nb"
          by (simp_all add: block_at_Some)
        let ?q = "q\<lparr>ulfq_head := Ptr n\<rparr>"
        let ?h = "h\<lparr>cells := (cells h)[ha := None], avail := avail h + 1,
                    history := history h @ [Free ha]\<rparr>"
        have adv: "ulfq_wf sz base ?q ?h"
          using wf 1(2,4) Ptr by (rule ulfq_wf_advance)
        show ?thesis
        proof (cases "mb_writer nb = 0")
          case True
          with ulfq_pop_advance_empty [OF False 1(2) live drained Ptr n(2) nlive, of e] adv
          show ?thesis by blast
        next
          case more: False
          let ?b = "nb\<lparr>mb_reader := 1 mod ulfq_capacity q\<rparr>"
          from B [OF n(1,3)] have nb: "mb_writer nb < sz + 1" "length (mb_data nb) = sz + 1"
            by simp_all
          have "block_at ?h n = Some nb"
            using n(2) nlive by (simp add: block_at_def)
          with adv have "ulfq_wf sz base ?q (?h\<lparr>cells := (cells ?h)[n := Some ?b]\<rparr>)"
            by (rule ulfq_wf_update_block) (use nb 1(1) in simp_all)
          moreover have "?h\<lparr>cells := (cells ?h)[n := Some ?b]\<rparr> =
              h\<lparr>cells := (cells h)[ha := None, n := Some ?b], avail := avail h + 1,
                history := history h @ [Free ha]\<rparr>"
            by simp
          ultimately have "ulfq_wf sz base ?q
              (h\<lparr>cells := (cells h)[ha := None, n := Some ?b], avail := avail h + 1,
                history := history h @ [Free ha]\<rparr>)"
            by (simp only:)
          with ulfq_pop_advance_take [OF False 1(2) live drained Ptr n(2) nlive more, of e]
          show ?thesis by blast
        qed
      qed
    qed
  qed
qed

lemma ulfq_run_wf:
  assumes "ulfq_wf sz base q h"
  shows "UnboundedLockFreeQueue_run sz d cs q h = Inl bad_alloc \<or>
         (\<exists>rs q' h'. UnboundedLockFreeQueue_run sz d cs q h = Inr (rs, q', h') \<and> ulfq_wf sz base q' h')"
  using assms
proof (induction cs arbitrary: q h)
  case Nil
  then show ?case by simp
next
  case (Cons c cs)
  show ?case
  proof (cases c)
    case (Push v)
    from ulfq_push_wf [OF Cons.prems, of d v] show ?thesis
    proof
      assume "UnboundedLockFreeQueue_push sz d v q h = Inl bad_alloc"
      then show ?thesis by (simp add: Push)
    next
      assume "\<exists>r q' h'. UnboundedLockFreeQueue_push sz d v q h = Inr (r, q', h') \<and> ulfq_wf sz base q' h'"
      then obtain r q' h' where
        p: "UnboundedLockFreeQueue_push sz d v q h = Inr (r, q', h')" and wf': "ulfq_wf sz base q' h'"
        by blast
      from Cons.IH [OF wf'] show ?thesis
        by (auto simp: Push p)
    qed
  next
    case (Pop e)
    from ulfq_pop_wf [OF Cons.prems, of e] obtain r e' q' h' where
      p: "UnboundedLockFreeQueue_pop e q h = Inr (r, e', q', h')" and wf': "ulfq_wf sz base q' h'"
      by blast
    from Cons.IH [OF wf'] show ?thesis
      by (auto simp: Pop p)
  qed
qed

lemma ulfq_wf_bounds:
  assumes "ulfq_wf sz base q h"
  shows "ulfq_capacity q = sz + 1 \<and>
         list_all (block_in_bounds sz) (drop base (cells h)) \<and>
         queue_block h base (ulfq_head q) \<and>
         queue_block h base (ulfq_tail q)"
  using assms
proof (rule ulfq_wfE)
  fix ha ta hb tb
  assume 1: "ulfq_capacity q = sz + 1"
    "ulfq_head q = Ptr ha" "ulfq_tail q = Ptr ta" "base \<le> ha" "base \<le> ta"
    "block_at h ha = Some hb" "block_at h ta = Some tb"
  and B: "\<And>a b. base \<le> a \<Longrightarrow> block_at h a = Some b \<Longrightarrow>
           mb_reader b < sz + 1 \<and> mb_writer b < sz + 1 \<and> length (mb_data b) = sz + 1"
  have head: "queue_block h base (ulfq_head q)"
    using 1(2,4,6) by (simp add: queue_block_def block_at_Some)
  have tail: "queue_block h base (ulfq_tail q)"
    using 1(3,5,7) by (simp add: queue_block_def block_at_Some)
  have "list_all (block_in_bounds sz) (drop base (cells h))"
    unfolding list_all_length
  proof (intro allI impI)
    fix i assume "i < length (drop base (cells h))"
    then have i: "base + i < length (cells h)" by simp
    have "block_in_bounds sz (cells h ! (base + i))"
    proof (cases "cells h ! (base + i)")
      case None
      then show ?thesis by (simp add: block_in_bounds_def)
    next
      case (Some b)
      with i have "block_at h (base + i) = Some b" by (simp add: block_at_def)
      from B [OF _ this] Some show ?thesis by (simp add: block_in_bounds_def)
    qed
    with i show "block_in_bounds sz (drop base (cells h) ! i)" by simp
  qed
  with 1(1) head tail show ?thesis by simp
qed

section \<open>Properties of \<^verbatim>\<open>UnboundedLockFreeQueue\<close>\<close>

text \<open>
  Claim C3 (cross-block continuity). On a free store with room for three blocks, the
  constructor of \<^verbatim>\<open>UnboundedLockFreeQueue<T,2>\<close> and five calls of \<^verbatim>\<open>push\<close> with \<open>v1\<close> to \<open>v5\<close>
  all succeed; the values then span three blocks (two values to a block), which are the
  only blocks allocated. Five calls of \<^verbatim>\<open>pop\<close> after that return true and yield \<open>v1\<close> to \<open>v5\<close>
  in this order; they delete the first two blocks, each once and in the order the reader
  leaves them, while the third block, still the head and the tail, stays allocated.
\<close>

theorem C3_cross_block_continuity:
  assumes "3 \<le> avail h0"
  shows "\<exists>q0 h1 q5 h5 q10 h10.
      UnboundedLockFreeQueue_init 2 d h0 = Inr (q0, h1) \<and>
      UnboundedLockFreeQueue_run 2 d [Push v1, Push v2, Push v3, Push v4, Push v5] q0 h1 =
        Inr ([Pushed True, Pushed True, Pushed True, Pushed True, Pushed True], q5, h5) \<and>
      ulfq_head q5 = Ptr (length (cells h0)) \<and>
      ulfq_tail q5 = Ptr (length (cells h0) + 2) \<and>
      history h5 = history h0 @
        [Alloc (length (cells h0)), Alloc (length (cells h0) + 1), Alloc (length (cells h0) + 2)] \<and>
      UnboundedLockFreeQueue_run 2 d [Pop e1, Pop e2, Pop e3, Pop e4, Pop e5] q5 h5 =
        Inr ([Popped True v1, Popped True v2, Popped True v3, Popped True v4, Popped True v5],
             q10, h10) \<and>
      ulfq_head q10 = Ptr (length (cells h0) + 2) \<and>
      ulfq_tail q10 = Ptr (length (cells h0) + 2) \<and>
      history h10 = history h5 @ [Free (length (cells h0)), Free (length (cells h0) + 1)] \<and>
      cells h10 = cells h0 @ [None, None,
        Some \<lparr>mb_reader = 1, mb_writer = 1, mb_next_block = nullptr, mb_data = [v5, d, d]\<rparr>]"
proof -
  from assms obtain k where k: "avail h0 = Suc (Suc (Suc k))"
    by (metis Suc_le_D numeral_3_eq_3 Suc_le_mono le0)
  show ?thesis
    by (simp add: ulfq_defs replicate_3 k nth_append list_update_append)
qed

theorem C3_cross_block_continuity_witness:
  "3 \<le> avail \<lparr>cells = ([] :: nat MemoryBlock option list), avail = 3, history = []\<rparr> \<and>
   (\<exists>q0 h1 q5 h5 q10 h10.
      UnboundedLockFreeQueue_init 2 (0 :: nat) \<lparr>cells = ([] :: nat MemoryBlock option list), avail = 3, history = []\<rparr> = Inr (q0, h1) \<and>
      UnboundedLockFreeQueue_run 2 0 [Push 1, Push 2, Push 3, Push 4, Push 5] q0 h1 =
        Inr ([Pushed True, Pushed True, Pushed True, Pushed True, Pushed True], q5, h5) \<and>
      ulfq_head q5 = Ptr (length (cells \<lparr>cells = ([] :: nat MemoryBlock option list), avail = 3, history = []\<rparr>)) \<and>
      ulfq_tail q5 = Ptr (length (cells \<lparr>cells = ([] :: nat MemoryBlock option list), avail = 3, history = []\<rparr>) + 2) \<and>
      history h5 = history \<lparr>cells = ([] :: nat MemoryBlock option list), avail = 3, history = []\<rparr> @
        [Alloc (length (cells \<lparr>cells = ([] :: nat MemoryBlock option list), avail = 3, history = []\<rparr>)), Alloc (length (cells \<lparr>cells = ([] :: nat MemoryBlock option list), avail = 3, history = []\<rparr>) + 1), Alloc (length (cells \<lparr>cells = ([] :: nat MemoryBlock option list), avail = 3, history = []\<rparr>) + 2)] \<and>
      UnboundedLockFreeQueue_run 2 0 [Pop 0, Pop 0, Pop 0, Pop 0, Pop 0] q5 h5 =
        Inr ([Popped True 1, Popped True 2, Popped True 3, Popped True 4, Popped True 5],
             q10, h10) \<and>
      ulfq_head q10 = Ptr (length (cells \<lparr>cells = ([] :: nat MemoryBlock option list), avail = 3, history = []\<rparr>) + 2) \<and>
      ulfq_tail q10 = Ptr (length (cells \<lparr>cells = ([] :: nat MemoryBlock option list), avail = 3, history = []\<rparr>) + 2) \<and>
      history h10 = history h5 @ [Free (length (cells \<lparr>cells = ([] :: nat MemoryBlock option list), avail = 3, history = []\<rparr>)), Free (length (cells \<lparr>cells = ([] :: nat MemoryBlock option list), avail = 3, history = []\<rparr>) + 1)] \<and>
      cells h10 = cells \<lparr>cells = ([] :: nat MemoryBlock option list), avail = 3, history = []\<rparr> @ [None, None,
        Some \<lparr>mb_reader = 1, mb_writer = 1, mb_next_block = nullptr, mb_data = [5, 0, 0]\<rparr>])"
  using C3_cross_block_continuity
    [where ?h0.0 = "\<lparr>cells = ([] :: nat MemoryBlock option list), avail = 3, history = []\<rparr>"
       and d = 0 and ?v1.0 = 1 and ?v2.0 = 2 and ?v3.0 = 3 and ?v4.0 = 4 and ?v5.0 = 5
       and ?e1.0 = 0 and ?e2.0 = 0 and ?e3.0 = 0 and ?e4.0 = 0 and ?e5.0 = 0]
  by (simp del: UnboundedLockFreeQueue_run.simps)

text \<open>
  Claim C4 (shutdown). Whatever the queue and the store hold, once \<^verbatim>\<open>stop\<close> is set \<^verbatim>\<open>push\<close> and
  \<^verbatim>\<open>pop\<close> return false and change neither the queue, nor the store, nor the caller's
  variable. No call of \<^verbatim>\<open>push\<close> or \<^verbatim>\<open>pop\<close> changes the flag, and the destructor, the one
  place that writes it, sets it: it goes from false to true and never back.
\<close>

theorem C4_shutdown_is_final:
  "(ulfq_stop q \<longrightarrow>
      UnboundedLockFreeQueue_push sz d elem q h = Inr (False, q, h) \<and>
      UnboundedLockFreeQueue_pop e q h = Inr (False, e, q, h))
   \<and> (UnboundedLockFreeQueue_push sz d elem q h = Inr (r, q1, h1) \<longrightarrow> ulfq_stop q1 = ulfq_stop q)
   \<and> (UnboundedLockFreeQueue_pop e q h = Inr (r', e', q2, h2) \<longrightarrow> ulfq_stop q2 = ulfq_stop q)
   \<and> (UnboundedLockFreeQueue_destroy q h = Inr (q3, h3) \<longrightarrow> ulfq_stop q3)"
  using ulfq_push_stop [of sz d elem q h r q1 h1] ulfq_pop_stop [of e q h r' e' q2 h2]
    ulfq_destroy_stop [of q h q3 h3]
  by (simp add: UnboundedLockFreeQueue_push_def UnboundedLockFreeQueue_pop_def)

theorem C4_shutdown_is_final_witness:
  "ulfq_stop \<lparr>ulfq_capacity = 3, ulfq_head = Ptr 0, ulfq_tail = Ptr 0, ulfq_stop = True\<rparr>
   \<and> UnboundedLockFreeQueue_push 2 0 9
        \<lparr>ulfq_capacity = 3, ulfq_head = Ptr 0, ulfq_tail = Ptr 0, ulfq_stop = True\<rparr>
        \<lparr>cells = [Some \<lparr>mb_reader = 0, mb_writer = 1, mb_next_block = nullptr, mb_data = [7 :: nat, 0, 0]\<rparr>],
         avail = 4, history = [Alloc 0]\<rparr> =
      Inr (False,
        \<lparr>ulfq_capacity = 3, ulfq_head = Ptr 0, ulfq_tail = Ptr 0, ulfq_stop = True\<rparr>,
        \<lparr>cells = [Some \<lparr>mb_reader = 0, mb_writer = 1, mb_next_block = nullptr, mb_data = [7, 0, 0]\<rparr>],
         avail = 4, history = [Alloc 0]\<rparr>)
   \<and> UnboundedLockFreeQueue_pop 5
        \<lparr>ulfq_capacity = 3, ulfq_head = Ptr 0, ulfq_tail = Ptr 0, ulfq_stop = True\<rparr>
        \<lparr>cells = [Some \<lparr>mb_reader = 0, mb_writer = 1, mb_next_block = nullptr, mb_data = [7 :: nat, 0, 0]\<rparr>],
         avail = 4, history = [Alloc 0]\<rparr> =
      Inr (False, 5,
        \<lparr>ulfq_capacity = 3, ulfq_head = Ptr 0, ulfq_tail = Ptr 0, ulfq_stop = True\<rparr>,
        \<lparr>cells = [Some \<lparr>mb_reader = 0, mb_writer = 1, mb_next_block = nullptr, mb_data = [7, 0, 0]\<rparr>],
         avail = 4, history = [Alloc 0]\<rparr>)
   \<and> UnboundedLockFreeQueue_destroy
        \<lparr>ulfq_capacity = 3, ulfq_head = Ptr 0, ulfq_tail = Ptr 0, ulfq_stop = True\<rparr>
        \<lparr>cells = [Some \<lparr>mb_reader = 0, mb_writer = 1, mb_next_block = nullptr, mb_data = [7 :: nat, 0, 0]\<rparr>],
         avail = 4, history = [Alloc 0]\<rparr> =
      Inr (\<lparr>ulfq_capacity = 3, ulfq_head = Ptr 0, ulfq_tail = Ptr 0, ulfq_stop = True\<rparr>,
        \<lparr>cells = [None], avail = 5, history = [Alloc 0, Free 0]\<rparr>)"
proof -
  let ?q = "\<lparr>ulfq_capacity = 3, ulfq_head = Ptr 0, ulfq_tail = Ptr 0, ulfq_stop = True\<rparr>"
  let ?h = "\<lparr>cells = [Some \<lparr>mb_reader = 0, mb_writer = 1, mb_next_block = nullptr, mb_data = [7 :: nat, 0, 0]\<rparr>],
         avail = 4, history = [Alloc 0]\<rparr>"
  have stop: "ulfq_stop ?q" by simp
  have destroy: "UnboundedLockFreeQueue_destroy ?q ?h =
      Inr (?q, \<lparr>cells = [None], avail = 5, history = [Alloc 0, Free 0]\<rparr>)"
    by (simp add: UnboundedLockFreeQueue_destroy_def deref_def delete_MemoryBlock_def Let_def
          UnboundedLockFreeQueue_destroy_loop.simps [of nullptr])
  from C4_shutdown_is_final [of ?q 2 0 9 ?h 5 False ?q ?h False 5 ?q ?h ?q
      "\<lparr>cells = [None], avail = 5, history = [Alloc 0, Free 0]\<rparr>"] stop destroy
  show ?thesis by simp
qed

text \<open>
  Claim C5 (no retry after advancing). When the head block is drained (its reader index
  equals its writer index) and links to a successor, a live block other than itself
  whose writer index is still at the first slot, \<^verbatim>\<open>pop\<close> moves \<^verbatim>\<open>head\<close> to the successor,
  deletes the old head block and returns false with the caller's variable untouched.
  The result does not depend on what the successor links to, so no further block is
  looked at: \<^verbatim>\<open>head\<close> ends on the successor itself. In the witness the successor links to a
  third block and \<^verbatim>\<open>head\<close> still stops at the second.
\<close>

theorem C5_pop_does_not_retry:
  assumes "\<not> ulfq_stop q" "ulfq_head q = Ptr a" "a < length (cells h)" "cells h ! a = Some hb"
    and "mb_reader hb = mb_writer hb" and "mb_next_block hb = Ptr n"
    and "n \<noteq> a" "n < length (cells h)" "cells h ! n = Some nb" and "mb_writer nb = 0"
  shows "UnboundedLockFreeQueue_pop elem q h =
    Inr (False, elem, q\<lparr>ulfq_head := Ptr n\<rparr>,
      h\<lparr>cells := (cells h)[a := None],
        avail := avail h + 1,
        history := history h @ [Free a]\<rparr>)"
  using assms by (simp add: ulfq_defs)

theorem C5_pop_does_not_retry_witness:
  "UnboundedLockFreeQueue_init 0 (0 :: nat) \<lparr>cells = [], avail = 3, history = []\<rparr> =
     Inr (\<lparr>ulfq_capacity = 1, ulfq_head = Ptr 0, ulfq_tail = Ptr 0, ulfq_stop = False\<rparr>,
          \<lparr>cells = [Some \<lparr>mb_reader = 0, mb_writer = 0, mb_next_block = nullptr, mb_data = [0]\<rparr>],
           avail = 2, history = [Alloc 0]\<rparr>)
   \<and> UnboundedLockFreeQueue_run 0 0 [Push (7 :: nat), Push 8]
       \<lparr>ulfq_capacity = 1, ulfq_head = Ptr 0, ulfq_tail = Ptr 0, ulfq_stop = False\<rparr>
       \<lparr>cells = [Some \<lparr>mb_reader = 0, mb_writer = 0, mb_next_block = nullptr, mb_data = [0]\<rparr>],
        avail = 2, history = [Alloc 0]\<rparr> =
     Inr ([Pushed True, Pushed True],
          \<lparr>ulfq_capacity = 1, ulfq_head = Ptr 0, ulfq_tail = Ptr 2, ulfq_stop = False\<rparr>,
          \<lparr>cells = [Some \<lparr>mb_reader = 0, mb_writer = 0, mb_next_block = Ptr 1, mb_data = [0]\<rparr>,
                    Some \<lparr>mb_reader = 0, mb_writer = 0, mb_next_block = Ptr 2, mb_data = [7]\<rparr>,
                    Some \<lparr>mb_reader = 0, mb_writer = 0, mb_next_block = nullptr, mb_data = [8]\<rparr>],
           avail = 0, history = [Alloc 0, Alloc 1, Alloc 2]\<rparr>)
   \<and> UnboundedLockFreeQueue_pop 5
       \<lparr>ulfq_capacity = 1, ulfq_head = Ptr 0, ulfq_tail = Ptr 2, ulfq_stop = False\<rparr>
       \<lparr>cells = [Some \<lparr>mb_reader = 0, mb_writer = 0, mb_next_block = Ptr 1, mb_data = [0]\<rparr>,
                 Some \<lparr>mb_reader = 0, mb_writer = 0, mb_next_block = Ptr 2, mb_data = [7]\<rparr>,
                 Some \<lparr>mb_reader = 0, mb_writer = 0, mb_next_block = nullptr, mb_data = [8 :: nat]\<rparr>],
        avail = 0, history = [Alloc 0, Alloc 1, Alloc 2]\<rparr> =
     Inr (False, 5,
          \<lparr>ulfq_capacity = 1, ulfq_head = Ptr 1, ulfq_tail = Ptr 2, ulfq_stop = False\<rparr>,
          \<lparr>cells = [None,
                    Some \<lparr>mb_reader = 0, mb_writer = 0, mb_next_block = Ptr 2, mb_data = [7]\<rparr>,
                    Some \<lparr>mb_reader = 0, mb_writer = 0, mb_next_block = nullptr, mb_data = [8]\<rparr>],
           avail = 1, history = [Alloc 0, Alloc 1, Alloc 2, Free 0]\<rparr>)"
proof -
  let ?q = "\<lparr>ulfq_capacity = 1, ulfq_head = Ptr 0, ulfq_tail = Ptr 2, ulfq_stop = False\<rparr>"
  let ?h = "\<lparr>cells = [Some \<lparr>mb_reader = 0, mb_writer = 0, mb_next_block = Ptr 1, mb_data = [0]\<rparr>,
                 Some \<lparr>mb_reader = 0, mb_writer = 0, mb_next_block = Ptr 2, mb_data = [7]\<rparr>,
                 Some \<lparr>mb_reader = 0, mb_writer = 0, mb_next_block = nullptr, mb_data = [8 :: nat]\<rparr>],
        avail = 0, history = [Alloc 0, Alloc 1, Alloc 2]\<rparr>"
  have init: "UnboundedLockFreeQueue_init 0 (0 :: nat) \<lparr>cells = [], avail = 3, history = []\<rparr> =
     Inr (\<lparr>ulfq_capacity = 1, ulfq_head = Ptr 0, ulfq_tail = Ptr 0, ulfq_stop = False\<rparr>,
          \<lparr>cells = [Some \<lparr>mb_reader = 0, mb_writer = 0, mb_next_block = nullptr, mb_data = [0]\<rparr>],
           avail = 2, history = [Alloc 0]\<rparr>)"
    by (simp add: ulfq_defs)
  have run: "UnboundedLockFreeQueue_run 0 0 [Push 7, Push 8]
       \<lparr>ulfq_capacity = 1, ulfq_head = Ptr 0, ulfq_tail = Ptr 0, ulfq_stop = False\<rparr>
       \<lparr>cells = [Some \<lparr>mb_reader = 0, mb_writer = 0, mb_next_block = nullptr, mb_data = [0]\<rparr>],
        avail = 2, history = [Alloc 0]\<rparr> =
     Inr ([Pushed True, Pushed True], ?q, ?h)"
    by (simp add: ulfq_defs)
  have pop: "UnboundedLockFreeQueue_pop 5 ?q ?h =
     Inr (False, 5,
          \<lparr>ulfq_capacity = 1, ulfq_head = Ptr 1, ulfq_tail = Ptr 2, ulfq_stop = False\<rparr>,
          \<lparr>cells = [None,
                    Some \<lparr>mb_reader = 0, mb_writer = 0, mb_next_block = Ptr 2, mb_data = [7]\<rparr>,
                    Some \<lparr>mb_reader = 0, mb_writer = 0, mb_next_block = nullptr, mb_data = [8]\<rparr>],
           avail = 1, history = [Alloc 0, Alloc 1, Alloc 2, Free 0]\<rparr>)"
    using C5_pop_does_not_retry
          [where q = ?q and h = ?h and a = 0 and n = 1 and elem = 5
             and hb = "\<lparr>mb_reader = 0, mb_writer = 0, mb_next_block = Ptr 1, mb_data = [0]\<rparr>"
             and nb = "\<lparr>mb_reader = 0, mb_writer = 0, mb_next_block = Ptr 2, mb_data = [7]\<rparr>"]
    by simp
  from init run pop show ?thesis
    by (intro conjI)
qed

text \<open>
  Claim C6 (allocation failure). The claim says that \<^verbatim>\<open>push\<close> returns false when the tail
  block is full and no block can be allocated. The source tests the result of
  \<^verbatim>\<open>new MemoryBlock()\<close> against \<^verbatim>\<open>nullptr\<close> to return false, but this \<^verbatim>\<open>new\<close> never yields a
  null pointer: on failure it throws \<^verbatim>\<open>std::bad_alloc\<close>, which leaves \<^verbatim>\<open>push\<close> as an exception.
  Here the store has room for one block only: the constructor takes it, two values fill
  it, and the third \<^verbatim>\<open>push\<close> ends with the exception instead of returning false.
  (\<open>ulfq_push_grow\<close> above is the other half of the claim: when the allocation succeeds,
  the new block is linked behind the old tail, \<^verbatim>\<open>tail\<close> moves to it and the value is
  written to its first slot.)
\<close>

theorem C6_allocation_failure_throws:
  "UnboundedLockFreeQueue_init 2 d \<lparr>cells = [], avail = 1, history = []\<rparr> =
     Inr (\<lparr>ulfq_capacity = 3, ulfq_head = Ptr 0, ulfq_tail = Ptr 0, ulfq_stop = False\<rparr>,
          \<lparr>cells = [Some \<lparr>mb_reader = 0, mb_writer = 0, mb_next_block = nullptr, mb_data = [d, d, d]\<rparr>],
           avail = 0, history = [Alloc 0]\<rparr>)
   \<and> UnboundedLockFreeQueue_run 2 d [Push v1, Push v2]
       \<lparr>ulfq_capacity = 3, ulfq_head = Ptr 0, ulfq_tail = Ptr 0, ulfq_stop = False\<rparr>
       \<lparr>cells = [Some \<lparr>mb_reader = 0, mb_writer = 0, mb_next_block = nullptr, mb_data = [d, d, d]\<rparr>],
        avail = 0, history = [Alloc 0]\<rparr> =
     Inr ([Pushed True, Pushed True],
          \<lparr>ulfq_capacity = 3, ulfq_head = Ptr 0, ulfq_tail = Ptr 0, ulfq_stop = False\<rparr>,
          \<lparr>cells = [Some \<lparr>mb_reader = 0, mb_writer = 2, mb_next_block = nullptr, mb_data = [v1, v2, d]\<rparr>],
           avail = 0, history = [Alloc 0]\<rparr>)
   \<and> UnboundedLockFreeQueue_push 2 d v3
       \<lparr>ulfq_capacity = 3, ulfq_head = Ptr 0, ulfq_tail = Ptr 0, ulfq_stop = False\<rparr>
       \<lparr>cells = [Some \<lparr>mb_reader = 0, mb_writer = 2, mb_next_block = nullptr, mb_data = [v1, v2, d]\<rparr>],
        avail = 0, history = [Alloc 0]\<rparr> =
     Inl bad_alloc"
  by (simp add: ulfq_defs replicate_3)

text \<open>
  Claim C9 (a failed \<^verbatim>\<open>pop\<close> may change the queue). In \<^verbatim>\<open>UnboundedLockFreeQueue<T,0>\<close> every
  block has one slot, so a block counts as full and as empty at once. After the
  constructor and one \<^verbatim>\<open>push\<close> (which returns true) the head block is drained, it links to
  a successor, and the successor's writer index is at the first slot. \<^verbatim>\<open>pop\<close> then returns
  false and yet moves \<^verbatim>\<open>head\<close> to the successor and deletes the previous block. A call of
  \<^verbatim>\<open>LockFreeQueue::pop\<close> that returns false leaves the queue and the caller's variable as
  they were. (\<open>ulfq_pop_between_link_and_store\<close> above reaches such a state of
  \<^verbatim>\<open>UnboundedLockFreeQueue<T,2>\<close> as well, with the consumer running between the producer's
  store of the link and its store of the writer index.)
\<close>

theorem C9_failed_pop_changes_state:
  "UnboundedLockFreeQueue_init 0 d \<lparr>cells = [], avail = 2, history = []\<rparr> =
     Inr (\<lparr>ulfq_capacity = 1, ulfq_head = Ptr 0, ulfq_tail = Ptr 0, ulfq_stop = False\<rparr>,
          \<lparr>cells = [Some \<lparr>mb_reader = 0, mb_writer = 0, mb_next_block = nullptr, mb_data = [d]\<rparr>],
           avail = 1, history = [Alloc 0]\<rparr>)
   \<and> UnboundedLockFreeQueue_push 0 d v
       \<lparr>ulfq_capacity = 1, ulfq_head = Ptr 0, ulfq_tail = Ptr 0, ulfq_stop = False\<rparr>
       \<lparr>cells = [Some \<lparr>mb_reader = 0, mb_writer = 0, mb_next_block = nullptr, mb_data = [d]\<rparr>],
        avail = 1, history = [Alloc 0]\<rparr> =
     Inr (True,
          \<lparr>ulfq_capacity = 1, ulfq_head = Ptr 0, ulfq_tail = Ptr 1, ulfq_stop = False\<rparr>,
          \<lparr>cells = [Some \<lparr>mb_reader = 0, mb_writer = 0, mb_next_block = Ptr 1, mb_data = [d]\<rparr>,
                    Some \<lparr>mb_reader = 0, mb_writer = 0, mb_next_block = nullptr, mb_data = [v]\<rparr>],
           avail = 0, history = [Alloc 0, Alloc 1]\<rparr>)
   \<and> UnboundedLockFreeQueue_pop e
       \<lparr>ulfq_capacity = 1, ulfq_head = Ptr 0, ulfq_tail = Ptr 1, ulfq_stop = False\<rparr>
       \<lparr>cells = [Some \<lparr>mb_reader = 0, mb_writer = 0, mb_next_block = Ptr 1, mb_data = [d]\<rparr>,
                 Some \<lparr>mb_reader = 0, mb_writer = 0, mb_next_block = nullptr, mb_data = [v]\<rparr>],
        avail = 0, history = [Alloc 0, Alloc 1]\<rparr> =
     Inr (False, e,
          \<lparr>ulfq_capacity = 1, ulfq_head = Ptr 1, ulfq_tail = Ptr 1, ulfq_stop = False\<rparr>,
          \<lparr>cells = [None,
                    Some \<lparr>mb_reader = 0, mb_writer = 0, mb_next_block = nullptr, mb_data = [v]\<rparr>],
           avail = 1, history = [Alloc 0, Alloc 1, Free 0]\<rparr>)
   \<and> (\<forall>x q. fst (LockFreeQueue_pop x q) = False \<longrightarrow> LockFreeQueue_pop x q = (False, x, q))"
  by (simp add: ulfq_defs LockFreeQueue_pop_def)

theorem C9_failed_pop_changes_state_witness:
  "fst (LockFreeQueue_pop (5 :: nat) (LockFreeQueue_init 2 0)) = False
   \<and> LockFreeQueue_pop (5 :: nat) (LockFreeQueue_init 2 0) = (False, 5, LockFreeQueue_init 2 0)"
proof -
  have "fst (LockFreeQueue_pop (5 :: nat) (LockFreeQueue_init 2 0)) = False"
    by (simp add: LockFreeQueue_pop_def LockFreeQueue_init_def)
  with C9_failed_pop_changes_state [where 'a = nat and 'b = nat] show ?thesis
    by blast
qed

text \<open>
  Claim C10 (indices in bounds). In every state that calls of \<^verbatim>\<open>push\<close> and \<^verbatim>\<open>pop\<close> reach from
  the freshly constructed \<^verbatim>\<open>LockFreeQueue<T, C>\<close>, the reader index and the writer index are
  below \<open>C + 1\<close>, which is the capacity field and the length of the array, so
  \<^verbatim>\<open>data[wr_pos]\<close> and \<^verbatim>\<open>data[rd_pos]\<close> are inside it; as this holds after every run of calls,
  both operations keep it. The same holds for \<^verbatim>\<open>UnboundedLockFreeQueue<T, C>\<close> used by one
  thread: after every run of calls that has not ended with \<^verbatim>\<open>std::bad_alloc\<close>, every block
  the queue has allocated and not yet deleted has both indices below \<open>C + 1\<close>, the length
  of its array, and \<^verbatim>\<open>head\<close> and \<^verbatim>\<open>tail\<close> point to such blocks; no run goes through a null
  or dangling pointer.
\<close>

theorem C10_indices_in_bounds:
  "(LockFreeQueue_run cs (LockFreeQueue_init C d) = (rs, q) \<longrightarrow>
      lfq_capacity q = C + 1 \<and> lfq_reader q < C + 1 \<and> lfq_writer q < C + 1 \<and>
      length (lfq_data q) = C + 1)
   \<and> (UnboundedLockFreeQueue_init C d h0 = Inr (u0, h1) \<longrightarrow>
        UnboundedLockFreeQueue_run C d cs' u0 h1 \<noteq> Inl undefined_behaviour \<and>
        (UnboundedLockFreeQueue_run C d cs' u0 h1 = Inr (rs', u, h) \<longrightarrow>
           ulfq_capacity u = C + 1 \<and>
           list_all (block_in_bounds C) (drop (length (cells h0)) (cells h)) \<and>
           queue_block h (length (cells h0)) (ulfq_head u) \<and>
           queue_block h (length (cells h0)) (ulfq_tail u)))"
proof (intro conjI impI)
  assume "LockFreeQueue_run cs (LockFreeQueue_init C d) = (rs, q)"
  then have "q = snd (LockFreeQueue_run cs (LockFreeQueue_init C d))" by simp
  with lfq_run_inv [where q = "LockFreeQueue_init C d" and cs = cs, OF lfq_init_inv] have inv: "lfq_inv C q" by simp
  then show "lfq_capacity q = C + 1" "lfq_reader q < C + 1" "lfq_writer q < C + 1"
    "length (lfq_data q) = C + 1"
    by (simp_all add: lfq_inv_def)
next
  assume init: "UnboundedLockFreeQueue_init C d h0 = Inr (u0, h1)"
  have "avail h0 \<noteq> 0"
  proof
    assume "avail h0 = 0"
    then have "UnboundedLockFreeQueue_init C d h0 = Inl bad_alloc"
      by (simp add: UnboundedLockFreeQueue_init_def new_MemoryBlock_def)
    with init show False by simp
  qed
  from ulfq_init_wf [OF this, where sz = C and d = d] init have wf: "ulfq_wf C (length (cells h0)) u0 h1"
    by simp
  note run = ulfq_run_wf [OF wf, where d = d and cs = cs']
  from run show "UnboundedLockFreeQueue_run C d cs' u0 h1 \<noteq> Inl undefined_behaviour"
    by auto
  assume "UnboundedLockFreeQueue_run C d cs' u0 h1 = Inr (rs', u, h)"
  with run have "ulfq_wf C (length (cells h0)) u h" by simp
  from ulfq_wf_bounds [OF this]
  show "ulfq_capacity u = C + 1"
    "list_all (block_in_bounds C) (drop (length (cells h0)) (cells h))"
    "queue_block h (length (cells h0)) (ulfq_head u)"
    "queue_block h (length (cells h0)) (ulfq_tail u)"
    by simp_all
qed

theorem C10_indices_in_bounds_witness:
  "LockFreeQueue_run [Push 7, Push 8, Pop 0, Push 9] (LockFreeQueue_init 2 (0 :: nat)) =
     ([Pushed True, Pushed True, Popped True 7, Pushed True],
      \<lparr>lfq_capacity = 3, lfq_reader = 1, lfq_writer = 0, lfq_data = [7, 8, 9]\<rparr>)
   \<and> lfq_reader \<lparr>lfq_capacity = 3, lfq_reader = 1, lfq_writer = 0, lfq_data = [7, 8, 9 :: nat]\<rparr> < 2 + 1
   \<and> lfq_writer \<lparr>lfq_capacity = 3, lfq_reader = 1, lfq_writer = 0, lfq_data = [7, 8, 9 :: nat]\<rparr> < 2 + 1
   \<and> UnboundedLockFreeQueue_init 2 (0 :: nat) \<lparr>cells = [], avail = 2, history = []\<rparr> =
       Inr (\<lparr>ulfq_capacity = 3, ulfq_head = Ptr 0, ulfq_tail = Ptr 0, ulfq_stop = False\<rparr>,
            \<lparr>cells = [Some \<lparr>mb_reader = 0, mb_writer = 0, mb_next_block = nullptr, mb_data = [0, 0, 0]\<rparr>],
             avail = 1, history = [Alloc 0]\<rparr>)
   \<and> UnboundedLockFreeQueue_run 2 0 [Push 7, Push 8, Pop 0, Push 9]
        \<lparr>ulfq_capacity = 3, ulfq_head = Ptr 0, ulfq_tail = Ptr 0, ulfq_stop = False\<rparr>
        \<lparr>cells = [Some \<lparr>mb_reader = 0, mb_writer = 0, mb_next_block = nullptr, mb_data = [0, 0, 0 :: nat]\<rparr>],
         avail = 1, history = [Alloc 0]\<rparr> =
       Inr ([Pushed True, Pushed True, Popped True 7, Pushed True],
            \<lparr>ulfq_capacity = 3, ulfq_head = Ptr 0, ulfq_tail = Ptr 0, ulfq_stop = False\<rparr>,
            \<lparr>cells = [Some \<lparr>mb_reader = 1, mb_writer = 0, mb_next_block = nullptr, mb_data = [7, 8, 9]\<rparr>],
             avail = 1, history = [Alloc 0]\<rparr>)
   \<and> list_all (block_in_bounds 2)
        [Some \<lparr>mb_reader = 1, mb_writer = 0, mb_next_block = nullptr, mb_data = [7, 8, 9 :: nat]\<rparr>]"
proof -
  let ?q = "\<lparr>lfq_capacity = 3, lfq_reader = 1, lfq_writer = 0, lfq_data = [7, 8, 9 :: nat]\<rparr>"
  let ?start = "\<lparr>cells = ([] :: nat MemoryBlock option list), avail = 2, history = []\<rparr>"
  let ?obj = "\<lparr>ulfq_capacity = 3, ulfq_head = Ptr 0, ulfq_tail = Ptr 0, ulfq_stop = False\<rparr>"
  let ?store = "\<lparr>cells = [Some \<lparr>mb_reader = 0, mb_writer = 0, mb_next_block = nullptr, mb_data = [0, 0, 0 :: nat]\<rparr>],
             avail = 1, history = [Alloc 0]\<rparr>"
  let ?final = "\<lparr>cells = [Some \<lparr>mb_reader = 1, mb_writer = 0, mb_next_block = nullptr, mb_data = [7, 8, 9 :: nat]\<rparr>],
             avail = 1, history = [Alloc 0]\<rparr>"
  have bounded: "LockFreeQueue_run [Push 7, Push 8, Pop 0, Push 9] (LockFreeQueue_init 2 (0 :: nat)) =
     ([Pushed True, Pushed True, Popped True 7, Pushed True], ?q)"
    by (simp add: LockFreeQueue_init_def LockFreeQueue_push_def LockFreeQueue_pop_def Let_def
          replicate_3)
  have init: "UnboundedLockFreeQueue_init 2 (0 :: nat) ?start = Inr (?obj, ?store)"
    by (simp add: ulfq_defs replicate_3)
  have run: "UnboundedLockFreeQueue_run 2 0 [Push 7, Push 8, Pop 0, Push 9] ?obj ?store =
       Inr ([Pushed True, Pushed True, Popped True 7, Pushed True], ?obj, ?final)"
    by (simp add: ulfq_defs)
  from C10_indices_in_bounds [where cs = "[Push 7, Push 8, Pop 0, Push 9]" and C = 2 and d = "0 :: nat"
      and rs = "[Pushed True, Pushed True, Popped True 7, Pushed True]" and q = ?q
      and ?h0.0 = ?start and ?u0.0 = ?obj and ?h1.0 = ?store
      and cs' = "[Push 7, Push 8, Pop 0, Push 9]"
      and rs' = "[Pushed True, Pushed True, Popped True 7, Pushed True]" and u = ?obj and h = ?final]
    bounded init run
  have "lfq_reader ?q < 2 + 1" "lfq_writer ?q < 2 + 1"
    "list_all (block_in_bounds 2) (drop (length (cells ?start)) (cells ?final))"
    by blast+
  with bounded init run show ?thesis by simp
qed

end
